theory Spec2Isabelle
  imports Main
begin

section \<open>Python values used by the model\<close>

text \<open>
  An exception object is its class name together with what \<^verbatim>\<open>str(e)\<close> does: it
  returns a text (\<open>Exn\<close>), or the \<^verbatim>\<open>__str__\<close> method of the class raises an exception
  of its own (\<open>Exn_bad_str\<close>). A job is a coroutine; what the model keeps of it is the
  outcome of awaiting it to completion: the value it returns (\<open>Inr\<close>) or the exception
  it raises (\<open>Inl\<close>). A string is a sequence of characters with code points below 256.
\<close>

datatype exn = Exn (exn_class: string) (exn_text: string) | Exn_bad_str string exn

fun str :: "exn \<Rightarrow> exn + string" where
  "str (Exn c t) = Inr t"
| "str (Exn_bad_str c e) = Inl e"

type_synonym 'a job = "exn + 'a"

text \<open>
  \<^verbatim>\<open>repr\<close> of a string: the text between quotes, single quotes unless the text has a
  single quote and no double quote; the quote in use and the backslash are escaped,
  tab, newline and carriage return are written with their letters, and the other
  characters that are not printable as two hexadecimal digits.
\<close>

definition squote :: char where
  "squote = CHR 0x27"

definition dquote :: char where
  "dquote = CHR 0x22"

definition backslash :: char where
  "backslash = CHR 0x5C"

definition hex_digit :: "nat \<Rightarrow> char" where
  "hex_digit n = ''0123456789abcdef'' ! (n mod 16)"

definition printable :: "char \<Rightarrow> bool" where
  "printable c =
     (let n = (of_char c :: nat)
      in \<not> (n < 32 \<or> n = 127 \<or> (128 \<le> n \<and> n \<le> 160) \<or> n = 173))"

definition repr_char :: "char \<Rightarrow> char \<Rightarrow> string" where
  "repr_char q c =
     (if c = q \<or> c = backslash then [backslash, c]
      else if c = CHR 0x09 then [backslash, CHR ''t'']
      else if c = CHR 0x0A then [backslash, CHR ''n'']
      else if c = CHR 0x0D then [backslash, CHR ''r'']
      else if printable c then [c]
      else [backslash, CHR ''x'', hex_digit (of_char c div 16), hex_digit (of_char c)])"

definition repr :: "string \<Rightarrow> string" where
  "repr t =
     (let q = (if squote \<in> set t \<and> dquote \<notin> set t then dquote else squote)
      in q # concat (map (repr_char q) t) @ [q])"

definition TypeError_not_awaitable :: exn where
  "TypeError_not_awaitable =
     Exn ''TypeError'' ''An asyncio.Future, a coroutine or an awaitable is required''"

definition ValueError_semaphore :: exn where
  "ValueError_semaphore = Exn ''ValueError'' ''Semaphore initial value must be >= 0''"

definition OverflowError_index :: exn where
  "OverflowError_index =
     Exn ''OverflowError''
       (''cannot fit '' @ [squote] @ ''int'' @ [squote] @ '' into an index-sized integer'')"

section \<open>async_utils.py: chunks\<close>

text \<open>
  \<^verbatim>\<open>
  def chunks(iterable, size):
      args = [iter(iterable)] * size
      return zip_longest(*args, fillvalue=None)
  \<close>
  \<open>args\<close> holds \<open>size\<close> references to one and the same iterator (none when
  \<open>size \<le> 0\<close>, since a list times a non-positive number is the empty list). The
  factor of a list repetition has to fit the index type of the interpreter, a signed
  64-bit integer; for a \<open>size\<close> outside of it the repetition raises \<open>OverflowError\<close>.
  Within it, a list too long for the memory of the machine makes the repetition raise
  \<open>MemoryError\<close>; how long that is depends on the machine, and the model takes the list
  as allocated.
  \<open>zip_longest\<close> builds each tuple by asking its slots in turn for the next item,
  so every slot read advances the shared iterator; a slot that finds it exhausted
  yields the fill value \<open>None\<close>. A tuple is produced as long as one slot of the round
  still got an item; with no slots at all nothing is produced.
\<close>

fun read_slots :: "nat \<Rightarrow> 'a list \<Rightarrow> 'a option list \<times> 'a list" where
  "read_slots 0 it = ([], it)"
| "read_slots (Suc n) [] = (case read_slots n [] of (t, it') \<Rightarrow> (None # t, it'))"
| "read_slots (Suc n) (x # it) = (case read_slots n it of (t, it') \<Rightarrow> (Some x # t, it'))"

function zip_longest_shared :: "nat \<Rightarrow> 'a list \<Rightarrow> 'a option list list" where
  "zip_longest_shared n it =
     (if n = 0 then []
      else case read_slots n it of
             (t, it') \<Rightarrow> if list_all (\<lambda>v. v = None) t then []
                         else t # zip_longest_shared n it')"
  by pat_completeness auto
termination
proof -
  have slots: "read_slots n it =
      (map Some (take n it) @ replicate (n - length it) None, drop n it)"
    for n and it :: "'a list"
    by (induction n it rule: read_slots.induct) (simp_all add: replicate_app_Cons_same)
  show ?thesis
    apply (relation "measure (\<lambda>(n, it). length it)")
     apply simp
    apply (auto simp: slots list_all_iff)
    subgoal for n it v by (cases it) auto
    done
qed

declare zip_longest_shared.simps [simp del]

definition PY_SSIZE_T_MAX :: int where
  "PY_SSIZE_T_MAX = 2 ^ 63 - 1"

definition chunks :: "'a list \<Rightarrow> int \<Rightarrow> exn + 'a option list list" where
  "chunks iterable sz =
     (if sz < - PY_SSIZE_T_MAX - 1 \<or> PY_SSIZE_T_MAX < sz then Inl OverflowError_index
      else Inr (zip_longest_shared (nat sz) iterable))"

section \<open>The event loop: tasks, the semaphore and asyncio.gather\<close>

text \<open>
  The two runners hand coroutines to \<^verbatim>\<open>asyncio.gather\<close>. \<open>batch_gather\<close> passes the
  submitted coroutines themselves (\<open>Plain\<close>); \<open>run_jobs\<close> passes
  \<^verbatim>\<open>worker(job)\<close>, whose body is
  \<^verbatim>\<open>
      async with semaphore:
          return await job
  \<close>
  (\<open>Worker\<close>). A task made from a worker waits for a permit of the semaphore, runs its
  job and gives the permit back when the \<^verbatim>\<open>async with\<close> block is left, by a return or
  by an exception alike. A task made from a plain coroutine runs from the start.
\<close>

datatype 'a coro = Plain "'a job" | Worker "'a job"

fun outcome :: "'a coro \<Rightarrow> exn + 'a" where
  "outcome (Plain j) = j"
| "outcome (Worker j) = j"

datatype 'a phase = Waiting | Running | Done "exn + 'a"

text \<open>
  The loop state: \<open>permits\<close> is the value of the semaphore the workers share,
  \<open>children\<close> are the tasks of one \<open>gather\<close> call in argument order, \<open>outer\<close> is
  the future that the caller of \<open>gather\<close> awaits (\<open>None\<close> while it is pending).
\<close>

record 'a loop =
  permits :: int
  children :: "('a coro \<times> 'a phase) list"
  outer :: "(exn + 'a list) option"

datatype step = Acquire nat | Finish nat

fun is_waiting :: "'a coro \<times> 'a phase \<Rightarrow> bool" where
  "is_waiting (c, Waiting) = True"
| "is_waiting (c, p) = False"

fun is_running :: "'a coro \<times> 'a phase \<Rightarrow> bool" where
  "is_running (c, Running) = True"
| "is_running (c, p) = False"

text \<open>
  What the loop can do next: a waiting worker takes a permit when the semaphore's value
  is positive (\<^verbatim>\<open>Semaphore.acquire\<close>), a running task finishes. Which of these
  happens first depends on how long the jobs take, which the program does not control.
\<close>

definition enabled :: "'a loop \<Rightarrow> step list" where
  "enabled L =
     [Acquire i. i \<leftarrow> [0..<length (children L)], is_waiting (children L ! i) \<and> 0 < permits L] @
     [Finish i. i \<leftarrow> [0..<length (children L)], is_running (children L ! i)]"

text \<open>
  \<^verbatim>\<open>gather\<close> with \<^verbatim>\<open>return_exceptions=False\<close>, the default both runners use: when
  a child is done and the outer future is still pending, a child's exception becomes the
  outer future's exception at once; otherwise, when every child is done, the outer
  future gets the list of the children's results in argument order. Nothing is done to
  the other children.
\<close>

fun results :: "('a coro \<times> 'a phase) list \<Rightarrow> 'a list option" where
  "results [] = Some []"
| "results ((c, Done (Inr v)) # ts) = map_option ((#) v) (results ts)"
| "results ((c, p) # ts) = None"

definition done_callback :: "exn + 'a \<Rightarrow> 'a loop \<Rightarrow> 'a loop" where
  "done_callback r L =
     (case outer L of
        Some res \<Rightarrow> L
      | None \<Rightarrow>
          (case r of
             Inl e \<Rightarrow> L\<lparr>outer := Some (Inl e)\<rparr>
           | Inr v \<Rightarrow>
               (case results (children L) of
                  Some vs \<Rightarrow> L\<lparr>outer := Some (Inr vs)\<rparr>
                | None \<Rightarrow> L)))"

fun release :: "'a coro \<Rightarrow> int \<Rightarrow> int" where
  "release (Worker j) v = v + 1"
| "release (Plain j) v = v"

fun fire :: "step \<Rightarrow> 'a loop \<Rightarrow> 'a loop" where
  "fire (Acquire i) L =
     L\<lparr>permits := permits L - 1,
       children := (children L)[i := (fst (children L ! i), Running)]\<rparr>"
| "fire (Finish i) L =
     (let c = fst (children L ! i)
      in done_callback (outcome c)
           (L\<lparr>permits := release c (permits L),
              children := (children L)[i := (c, Done (outcome c))]\<rparr>))"

text \<open>
  A schedule is a list of numbers; each picks one of the steps that are enabled at that
  moment. When nothing is enabled the loop stays where it is for good.
\<close>

fun exec :: "nat list \<Rightarrow> 'a loop \<Rightarrow> 'a loop" where
  "exec [] L = L"
| "exec (k # ks) L =
     (case enabled L of
        [] \<Rightarrow> L
      | e # es \<Rightarrow> exec ks (fire ((e # es) ! (k mod length (e # es))) L))"

text \<open>
  \<^verbatim>\<open>gather(*args)\<close> first turns every argument into a task and raises \<open>TypeError\<close>
  for an argument that is not awaitable, such as \<open>None\<close>. With no arguments the outer
  future is done at once, with the empty list.
\<close>

fun ensure_futures :: "'a coro option list \<Rightarrow> exn + 'a coro list" where
  "ensure_futures [] = Inr []"
| "ensure_futures (None # args) = Inl TypeError_not_awaitable"
| "ensure_futures (Some c # args) =
     (case ensure_futures args of Inl e \<Rightarrow> Inl e | Inr cs \<Rightarrow> Inr (c # cs))"

fun start :: "'a coro \<Rightarrow> 'a coro \<times> 'a phase" where
  "start (Plain j) = (Plain j, Running)"
| "start (Worker j) = (Worker j, Waiting)"

definition gather_start :: "int \<Rightarrow> 'a coro list \<Rightarrow> 'a loop" where
  "gather_start v cs =
     \<lparr>permits = v, children = map start cs,
      outer = (if cs = [] then Some (Inr []) else None)\<rparr>"

text \<open>
  Awaiting \<open>gather\<close> under a schedule: \<open>None\<close> when the outer future is still pending
  after the schedule, otherwise the list of results or the exception raised.
\<close>

definition gather :: "int \<Rightarrow> 'a coro option list \<Rightarrow> nat list \<Rightarrow> (exn + 'a list) option" where
  "gather v args sched =
     (case ensure_futures args of
        Inl e \<Rightarrow> Some (Inl e)
      | Inr cs \<Rightarrow> outer (exec sched (gather_start v cs)))"

section \<open>async_utils.py: batch_gather\<close>

text \<open>
  \<^verbatim>\<open>
  async def batch_gather(tasks, batch_size=10, verbose=False):
      output = []
      for task_chunk in chunks(tasks, batch_size):
          output_chunk = await asyncio.gather(*task_chunk)
          output.extend(output_chunk)
          if verbose:
              print(f"Completed {len(output)} out of {len(tasks)} tasks")
      return output
  \<close>
  \<open>sched k\<close> is the schedule under which the \<open>k\<close>-th \<open>gather\<close> call runs. The second
  component of the result lists the argument tuples that were handed to \<open>gather\<close>:
  a submitted coroutine runs only if it occurs there. No semaphore is involved, so the
  semaphore value of the loop is never read. Printing is left out. \<open>chunks\<close> is called
  when the loop statement is reached; an exception of it leaves \<open>batch_gather\<close> before
  anything is handed to \<open>gather\<close>.
\<close>

fun batch_loop ::
  "'a job option list list \<Rightarrow> (nat \<Rightarrow> nat list) \<Rightarrow> nat \<Rightarrow> 'a list \<Rightarrow> 'a job option list list \<Rightarrow>
   (exn + 'a list) option \<times> 'a job option list list" where
  "batch_loop [] sched k output gathered = (Some (Inr output), gathered)"
| "batch_loop (task_chunk # rest) sched k output gathered =
     (case gather 0 (map (map_option Plain) task_chunk) (sched k) of
        None \<Rightarrow> (None, gathered @ [task_chunk])
      | Some (Inl e) \<Rightarrow> (Some (Inl e), gathered @ [task_chunk])
      | Some (Inr output_chunk) \<Rightarrow>
          batch_loop rest sched (Suc k) (output @ output_chunk) (gathered @ [task_chunk]))"

definition batch_gather ::
  "'a job list \<Rightarrow> int \<Rightarrow> (nat \<Rightarrow> nat list) \<Rightarrow>
   (exn + 'a list) option \<times> 'a job option list list" where
  "batch_gather tasks batch_size sched =
     (case chunks tasks batch_size of
        Inl e \<Rightarrow> (Some (Inl e), [])
      | Inr task_chunks \<Rightarrow> batch_loop task_chunks sched 0 [] [])"

section \<open>async_utils.py: run_jobs\<close>

text \<open>
  \<^verbatim>\<open>
  async def run_jobs(jobs, show_progress=False, workers=DEFAULT_NUM_WORKERS, desc=None):
      semaphore = asyncio.Semaphore(workers)
      async def worker(job):
          async with semaphore:
              return await job
      pool_jobs = [worker(job) for job in jobs]
      ...
          results = await asyncio.gather(*pool_jobs)
      return results
  \<close>
  The constructor of \<^verbatim>\<open>asyncio.Semaphore\<close> raises \<open>ValueError\<close> for a negative
  initial value and accepts every other one, zero included. \<open>run_jobs_loop\<close> is the
  loop state after a schedule (or the constructor's exception), \<open>run_jobs\<close> what the
  caller has got by then: \<open>None\<close> while the call has not returned. The path with
  \<open>show_progress\<close> unset is the one modelled. \<open>run_jobs\<close> and \<open>worker\<close> are
  decorated with \<^verbatim>\<open>@dispatcher.span\<close>; the decorator hands on the value or the
  exception of the decorated coroutine (see \<open>wrapper\<close> below, also for an exception
  whose text cannot be taken) and is left out of the loop.
\<close>

definition DEFAULT_NUM_WORKERS :: int where
  "DEFAULT_NUM_WORKERS = 4"

definition Semaphore :: "int \<Rightarrow> exn + int" where
  "Semaphore v = (if v < 0 then Inl ValueError_semaphore else Inr v)"

definition run_jobs_loop :: "'a job list \<Rightarrow> int \<Rightarrow> nat list \<Rightarrow> exn + 'a loop" where
  "run_jobs_loop jobs workers sched =
     (case Semaphore workers of
        Inl e \<Rightarrow> Inl e
      | Inr semaphore \<Rightarrow>
          (let pool_jobs = map Worker jobs
           in Inr (exec sched (gather_start semaphore pool_jobs))))"

definition run_jobs :: "'a job list \<Rightarrow> int \<Rightarrow> nat list \<Rightarrow> (exn + 'a list) option" where
  "run_jobs jobs workers sched =
     (case run_jobs_loop jobs workers sched of
        Inl e \<Rightarrow> Some (Inl e)
      | Inr L \<Rightarrow> outer L)"

definition running_count :: "'a loop \<Rightarrow> nat" where
  "running_count L = length (filter is_running (children L))"

section \<open>dispatcher.py: handlers, dispatchers and the manager\<close>

text \<open>
  Python objects that the dispatcher only passes on (bound arguments, the instance, the
  result of the wrapped operation, the payload of an event) are values of a type
  parameter \<open>'v\<close>. The dispatcher itself constructs one kind of event,
  \<^verbatim>\<open>SpanDropEvent(span_id=id_, err_str=str(e))\<close>.
\<close>

datatype 'v base_event = SpanDropEvent (span_id: string) (err_str: string) | Event 'v

text \<open>
  The four calls a dispatcher makes on a handler, with the keyword arguments of the
  source: \<^verbatim>\<open>h.handle(event)\<close>,
  \<^verbatim>\<open>h.span_enter(id_, bound_args, instance, parent_id)\<close>,
  \<^verbatim>\<open>h.span_drop(id_, bound_args, instance, err)\<close> and
  \<^verbatim>\<open>h.span_exit(id_, bound_args, instance, result)\<close>.
\<close>

datatype 'v call =
    Handle "'v base_event"
  | Span_enter string 'v "'v option" "string option"
  | Span_drop string 'v "'v option" "exn option"
  | Span_exit string 'v "'v option" 'v

text \<open>
  Handler classes are not part of the dispatcher. A handler is known by an identity
  \<open>hid\<close> and by the exception it raises, if any, when it gets a call.
\<close>

datatype 'v handler = Handler (hid: nat) (raises: "'v call \<Rightarrow> exn option")

record 'v dispatcher =
  name :: string
  event_handlers :: "'v handler list"
  span_handlers :: "'v handler list"
  parent_name :: string
  manager :: "nat option"
  root_name :: string
  propagate :: bool

text \<open>
  A dispatcher refers to its \<^verbatim>\<open>Manager\<close> object or to \<open>None\<close>; the reference is an
  address, and the store \<open>M\<close> gives the \<^verbatim>\<open>dispatchers\<close> dictionary of the manager
  at each address.
  \<^verbatim>\<open>
  @property
  def parent(self):
      return self.manager.dispatchers[self.parent_name]
  \<close>
  raises \<open>AttributeError\<close> when the manager is \<open>None\<close> and \<open>KeyError\<close> when no
  dispatcher is registered under the parent name; the text of a \<open>KeyError\<close> is the
  \<^verbatim>\<open>repr\<close> of the key.
\<close>

type_synonym 'v managers = "nat \<Rightarrow> string \<rightharpoonup> 'v dispatcher"

definition AttributeError_manager :: exn where
  "AttributeError_manager =
     Exn ''AttributeError''
       ([squote] @ ''NoneType'' @ [squote] @ '' object has no attribute '' @
        [squote] @ ''dispatchers'' @ [squote])"

definition KeyError :: "string \<Rightarrow> exn" where
  "KeyError k = Exn ''KeyError'' (repr k)"

definition parent :: "'v managers \<Rightarrow> 'v dispatcher \<Rightarrow> exn + 'v dispatcher" where
  "parent M c =
     (case manager c of
        None \<Rightarrow> Inl AttributeError_manager
      | Some m \<Rightarrow>
          (case M m (parent_name c) of
             None \<Rightarrow> Inl (KeyError (parent_name c))
           | Some p \<Rightarrow> Inr p))"

text \<open>
  The state of one logical execution context: the context variable
  \<^verbatim>\<open>active_span_id\<close>, which is unset (\<open>MISSING\<close>) or holds an optional string, and
  the calls that handlers have received so far, in order.
\<close>

datatype 'x ctxvar = MISSING | Value 'x

record 'v ctx =
  active_span_id :: "string option ctxvar"
  calls :: "(nat \<times> 'v call) list"

section \<open>dispatcher.py: event, span_enter, span_drop and span_exit\<close>

text \<open>
  Calling a handler records the call; the handler may then raise.
\<close>

definition invoke :: "'v handler \<Rightarrow> 'v call \<Rightarrow> 'v ctx \<Rightarrow> (exn + unit) \<times> 'v ctx" where
  "invoke h c s =
     ((case raises h c of Some e \<Rightarrow> Inl e | None \<Rightarrow> Inr ()),
      s\<lparr>calls := calls s @ [(hid h, c)]\<rparr>)"

text \<open>
  \<^verbatim>\<open>
  try:
      h.handle(event, **kwargs)
  except BaseException:
      pass
  \<close>
\<close>

fun except_pass :: "(exn + unit) \<times> 'v ctx \<Rightarrow> (exn + unit) \<times> 'v ctx" where
  "except_pass (Inl e, s) = (Inr (), s)"
| "except_pass (Inr u, s) = (Inr u, s)"

text \<open>
  The \<^verbatim>\<open>for h in c.event_handlers\<close> loop. An exception that left the loop body would
  end the loop and the method.
\<close>

fun for_handlers :: "'v handler list \<Rightarrow> 'v call \<Rightarrow> 'v ctx \<Rightarrow> (exn + unit) \<times> 'v ctx" where
  "for_handlers [] c s = (Inr (), s)"
| "for_handlers (h # hs) c s =
     (case except_pass (invoke h c s) of
        (Inl e, s') \<Rightarrow> (Inl e, s')
      | (Inr u, s') \<Rightarrow> for_handlers hs c s')"

text \<open>
  The four methods share one loop,
  \<^verbatim>\<open>
  c = self
  while c:
      for h in c.event_handlers: ...
      if not c.propagate:
          c = None
      else:
          c = c.parent
  \<close>
  and differ in the handler list they read and in the call they make. A dispatcher
  object is always true as a loop condition, so the loop ends only at a dispatcher that
  does not propagate or by an exception of the \<open>parent\<close> lookup. It need not end:
  \<open>None\<close> stands for a walk that goes on for ever.
\<close>

partial_function (option) walk ::
  "'v managers \<Rightarrow> ('v dispatcher \<Rightarrow> 'v handler list) \<Rightarrow> 'v call \<Rightarrow> 'v dispatcher \<Rightarrow> 'v ctx \<Rightarrow>
   ((exn + unit) \<times> 'v ctx) option" where
  "walk M handlers_of cl c s =
     (case for_handlers (handlers_of c) cl s of
        (Inl e, s') \<Rightarrow> Some (Inl e, s')
      | (Inr u, s') \<Rightarrow>
          if \<not> propagate c then Some (Inr (), s')
          else (case parent M c of
                  Inl e \<Rightarrow> Some (Inl e, s')
                | Inr p \<Rightarrow> walk M handlers_of cl p s'))"

definition event ::
  "'v managers \<Rightarrow> 'v dispatcher \<Rightarrow> 'v base_event \<Rightarrow> 'v ctx \<Rightarrow> ((exn + unit) \<times> 'v ctx) option" where
  "event M self ev s = walk M event_handlers (Handle ev) self s"

definition span_enter ::
  "'v managers \<Rightarrow> 'v dispatcher \<Rightarrow> string \<Rightarrow> 'v \<Rightarrow> 'v option \<Rightarrow> string option \<Rightarrow> 'v ctx \<Rightarrow>
   ((exn + unit) \<times> 'v ctx) option" where
  "span_enter M self id' bound_args instance parent_id s =
     walk M span_handlers (Span_enter id' bound_args instance parent_id) self s"

definition span_drop ::
  "'v managers \<Rightarrow> 'v dispatcher \<Rightarrow> string \<Rightarrow> 'v \<Rightarrow> 'v option \<Rightarrow> exn option \<Rightarrow> 'v ctx \<Rightarrow>
   ((exn + unit) \<times> 'v ctx) option" where
  "span_drop M self id' bound_args instance err s =
     walk M span_handlers (Span_drop id' bound_args instance err) self s"

definition span_exit ::
  "'v managers \<Rightarrow> 'v dispatcher \<Rightarrow> string \<Rightarrow> 'v \<Rightarrow> 'v option \<Rightarrow> 'v \<Rightarrow> 'v ctx \<Rightarrow>
   ((exn + unit) \<times> 'v ctx) option" where
  "span_exit M self id' bound_args instance result s =
     walk M span_handlers (Span_exit id' bound_args instance result) self s"

section \<open>dispatcher.py: span\<close>

text \<open>
  \<^verbatim>\<open>active_span_id.set(id_)\<close> returns a token that remembers the old state of the
  variable (\<open>MISSING\<close> when it was unset); \<^verbatim>\<open>active_span_id.reset(token)\<close> puts that
  state back, whatever the variable holds by then.
\<close>

definition set_active :: "string option \<Rightarrow> 'v ctx \<Rightarrow> string option ctxvar \<times> 'v ctx" where
  "set_active v s = (active_span_id s, s\<lparr>active_span_id := Value v\<rparr>)"

definition reset :: "string option ctxvar \<Rightarrow> 'v ctx \<Rightarrow> 'v ctx" where
  "reset token s = s\<lparr>active_span_id := token\<rparr>"

text \<open>
  A \<^verbatim>\<open>finally\<close> clause runs when the block before it has returned or raised. A block
  that never ends never reaches it.
\<close>

fun finally_reset ::
  "string option ctxvar \<Rightarrow> ((exn + 'v) \<times> 'v ctx) option \<Rightarrow> ((exn + 'v) \<times> 'v ctx) option" where
  "finally_reset token None = None"
| "finally_reset token (Some (r, s)) = Some (r, reset token s)"

text \<open>
  \<^verbatim>\<open>
  def wrapper(func, instance, args, kwargs):
      bound_args = inspect.signature(func).bind(*args, **kwargs)
      id_ = f"{func.__qualname__}-{uuid.uuid4()}"
      token = active_span_id.set(id_)
      parent_id = None if token.old_value is Token.MISSING else token.old_value
      self.span_enter(id_=id_, bound_args=bound_args, instance=instance, parent_id=parent_id)
      try:
          result = func(*args, **kwargs)
      except BaseException as e:
          self.event(SpanDropEvent(span_id=id_, err_str=str(e)))
          self.span_drop(id_=id_, bound_args=bound_args, instance=instance, err=e)
          raise
      else:
          self.span_exit(id_=id_, bound_args=bound_args, instance=instance, result=result)
          return result
      finally:
          active_span_id.reset(token)
  \<close>
  The wrapped operation \<open>func\<close>, applied to its arguments, is a function on the state of
  the calling context: it returns a value or raises, may call handlers and may set the
  context variable itself, and it may not return at all (\<open>None\<close>). \<open>bind\<close> is the
  outcome of binding the arguments to the signature, which raises \<open>TypeError\<close> when they
  do not fit; \<open>uuid4\<close> is the random suffix of the span id. The manager store is the
  same before and after the operation: handlers are registered during set-up.
  \<^verbatim>\<open>str(e)\<close> is evaluated inside the \<^verbatim>\<open>except\<close> clause before anything is
  dispatched; when it raises, that exception leaves the clause, through the
  \<^verbatim>\<open>finally\<close> clause.
\<close>

definition wrapper ::
  "'v managers \<Rightarrow> 'v dispatcher \<Rightarrow> string \<Rightarrow> string \<Rightarrow> exn + 'v \<Rightarrow> 'v option \<Rightarrow>
   ('v ctx \<Rightarrow> ((exn + 'v) \<times> 'v ctx) option) \<Rightarrow> 'v ctx \<Rightarrow> ((exn + 'v) \<times> 'v ctx) option" where
  "wrapper M self qualname uuid4 bind instance func s =
     (case bind of
        Inl e \<Rightarrow> Some (Inl e, s)
      | Inr bound_args \<Rightarrow>
          (let id' = qualname @ ''-'' @ uuid4;
               (token, s1) = set_active (Some id') s;
               parent_id = (case token of MISSING \<Rightarrow> None | Value old_value \<Rightarrow> old_value)
           in case span_enter M self id' bound_args instance parent_id s1 of
                None \<Rightarrow> None
              | Some (Inl e, s2) \<Rightarrow> Some (Inl e, s2)
              | Some (Inr u, s2) \<Rightarrow>
                  finally_reset token
                    (case func s2 of
                       None \<Rightarrow> None
                     | Some (Inl e, s3) \<Rightarrow>
                         (case str e of
                            Inl e' \<Rightarrow> Some (Inl e', s3)
                          | Inr msg \<Rightarrow>
                              (case event M self (SpanDropEvent id' msg) s3 of
                                 None \<Rightarrow> None
                               | Some (Inl e', s4) \<Rightarrow> Some (Inl e', s4)
                               | Some (Inr u, s4) \<Rightarrow>
                                   (case span_drop M self id' bound_args instance (Some e) s4 of
                                      None \<Rightarrow> None
                                    | Some (Inl e', s5) \<Rightarrow> Some (Inl e', s5)
                                    | Some (Inr u, s5) \<Rightarrow> Some (Inl e, s5))))
                     | Some (Inr result, s3) \<Rightarrow>
                         (case span_exit M self id' bound_args instance result s3 of
                            None \<Rightarrow> None
                          | Some (Inl e', s4) \<Rightarrow> Some (Inl e', s4)
                          | Some (Inr u, s4) \<Rightarrow> Some (Inr result, s4)))))"

text \<open>
  \<^verbatim>\<open>async_wrapper\<close> is the same text with \<^verbatim>\<open>result = await func(*args, **kwargs)\<close>.
  Within one logical execution context, awaiting the coroutine is running it to its
  return or its exception, so the function on the context's state is the same.
  \<^verbatim>\<open>
  if inspect.iscoroutinefunction(func):
      return async_wrapper(func)
  else:
      return wrapper(func)
  \<close>
\<close>

definition async_wrapper ::
  "'v managers \<Rightarrow> 'v dispatcher \<Rightarrow> string \<Rightarrow> string \<Rightarrow> exn + 'v \<Rightarrow> 'v option \<Rightarrow>
   ('v ctx \<Rightarrow> ((exn + 'v) \<times> 'v ctx) option) \<Rightarrow> 'v ctx \<Rightarrow> ((exn + 'v) \<times> 'v ctx) option" where
  "async_wrapper M self qualname uuid4 bind instance func s =
     wrapper M self qualname uuid4 bind instance func s"

definition span ::
  "'v managers \<Rightarrow> 'v dispatcher \<Rightarrow> bool \<Rightarrow> string \<Rightarrow> string \<Rightarrow> exn + 'v \<Rightarrow> 'v option \<Rightarrow>
   ('v ctx \<Rightarrow> ((exn + 'v) \<times> 'v ctx) option) \<Rightarrow> 'v ctx \<Rightarrow> ((exn + 'v) \<times> 'v ctx) option" where
  "span M self iscoroutinefunction qualname uuid4 bind instance func s =
     (if iscoroutinefunction then async_wrapper M self qualname uuid4 bind instance func s
      else wrapper M self qualname uuid4 bind instance func s)"

section \<open>The propagation algorithm as the specification words it\<close>

text \<open>
  The specification: start at the originating dispatcher and walk up the parent chain
  until (a) a dispatcher whose propagation flag is false is reached (notify its own
  handlers, then stop) or (b) the root is processed. \<open>notify_chain M d ps\<close> says that
  \<open>ps\<close> is the list of dispatchers so visited from \<open>d\<close>; the root is a dispatcher
  that has no parent reachable through its manager. At each dispatcher every handler
  of the relevant list is called, in the order of the list: \<open>chain_calls\<close>.
\<close>

inductive notify_chain :: "'v managers \<Rightarrow> 'v dispatcher \<Rightarrow> 'v dispatcher list \<Rightarrow> bool"
  for M :: "'v managers" where
  stop: "\<not> propagate c \<Longrightarrow> notify_chain M c [c]"
| root: "propagate c \<Longrightarrow> parent M c = Inl e \<Longrightarrow> notify_chain M c [c]"
| up: "propagate c \<Longrightarrow> parent M c = Inr p \<Longrightarrow> notify_chain M p ps \<Longrightarrow>
       notify_chain M c (c # ps)"

definition chain_calls ::
  "('v dispatcher \<Rightarrow> 'v handler list) \<Rightarrow> 'v call \<Rightarrow> 'v dispatcher list \<Rightarrow> (nat \<times> 'v call) list" where
  "chain_calls handlers_of cl ps = concat (map (\<lambda>c. map (\<lambda>h. (hid h, cl)) (handlers_of c)) ps)"

text \<open>
  How the walk over a chain ends in the code: normally at a dispatcher that does not
  propagate, with the exception of the \<open>parent\<close> lookup at a root that propagates.
\<close>

definition chain_end :: "'v managers \<Rightarrow> 'v dispatcher list \<Rightarrow> exn + unit" where
  "chain_end M ps =
     (if propagate (last ps)
      then (case parent M (last ps) of Inl e \<Rightarrow> Inl e | Inr p \<Rightarrow> Inr ())
      else Inr ())"

section \<open>Notions used in the statements about the loop\<close>

text \<open>
  \<open>weight\<close> counts the steps a task still has to take, \<open>todo\<close> sums it over the
  tasks of the loop. \<open>tracks j t\<close> says that \<open>t\<close> is the worker task of job \<open>j\<close> and,
  when it is done, holds the outcome of \<open>j\<close>. \<open>accounted jobs w L\<close> says that the
  tasks of \<open>L\<close> are the workers of \<open>jobs\<close> in order and that the \<open>w\<close> permits are
  either in the semaphore or held by a running task.
\<close>

fun weight :: "'a coro \<times> 'a phase \<Rightarrow> nat" where
  "weight (c, Waiting) = 2"
| "weight (c, Running) = 1"
| "weight (c, Done r) = 0"

definition todo :: "'a loop \<Rightarrow> nat" where
  "todo L = sum_list (map weight (children L))"

fun is_failed :: "'a coro \<times> 'a phase \<Rightarrow> bool" where
  "is_failed (c, Done (Inl e)) = True"
| "is_failed (c, p) = False"

fun tracks :: "'a job \<Rightarrow> 'a coro \<times> 'a phase \<Rightarrow> bool" where
  "tracks j (c, Done r) = (c = Worker j \<and> r = j)"
| "tracks j (c, p) = (c = Worker j)"

text \<open>
  \<open>plain_tracks j t\<close> is the like for the task of a coroutine handed to \<open>gather\<close>
  as it is: it runs from the start.
\<close>

fun plain_tracks :: "'a job \<Rightarrow> 'a coro \<times> 'a phase \<Rightarrow> bool" where
  "plain_tracks j (c, Waiting) = False"
| "plain_tracks j (c, Running) = (c = Plain j)"
| "plain_tracks j (c, Done r) = (c = Plain j \<and> r = j)"

definition accounted :: "'a job list \<Rightarrow> int \<Rightarrow> 'a loop \<Rightarrow> bool" where
  "accounted jobs w L \<longleftrightarrow>
     list_all2 tracks jobs (children L) \<and> 0 \<le> permits L \<and>
     permits L + int (running_count L) = w"

text \<open>
  \<open>surfaced L\<close> relates the outer future of \<open>gather\<close> to its tasks: as soon as a
  task is done with an exception the outer future holds the exception of such a task;
  as long as none is, the outer future is pending until every task is done and then
  holds the results in argument order.
\<close>

definition surfaced :: "'a loop \<Rightarrow> bool" where
  "surfaced L \<longleftrightarrow>
     (if \<exists>t \<in> set (children L). is_failed t
      then \<exists>e c. outer L = Some (Inl e) \<and> (c, Done (Inl e)) \<in> set (children L)
      else outer L = map_option Inr (results (children L)))"

section \<open>An example dispatcher tree\<close>

text \<open>
  A root that does not propagate and a child below it, registered in the manager at
  address 0. The first handler of the child raises on every call. The calling context
  has an active span already; the example operation raises and leaves the context
  variable changed.
\<close>

definition example_failing_handler :: "nat handler" where
  "example_failing_handler = Handler 1 (\<lambda>cl. Some (Exn ''RuntimeError'' ''handler failed''))"

definition example_handler :: "nat \<Rightarrow> nat handler" where
  "example_handler i = Handler i (\<lambda>cl. None)"

definition example_root :: "nat dispatcher" where
  "example_root =
     \<lparr>name = ''root'', event_handlers = [example_handler 3], span_handlers = [example_handler 4],
      parent_name = [], manager = Some 0, root_name = ''root'', propagate = False\<rparr>"

definition example_child :: "nat dispatcher" where
  "example_child =
     \<lparr>name = ''root.child'',
      event_handlers = [example_failing_handler, example_handler 2],
      span_handlers = [example_failing_handler, example_handler 2],
      parent_name = ''root'', manager = Some 0, root_name = ''root'', propagate = True\<rparr>"

definition example_managers :: "nat managers" where
  "example_managers = (\<lambda>m. [''root'' \<mapsto> example_root, ''root.child'' \<mapsto> example_child])"

definition example_ctx :: "nat ctx" where
  "example_ctx = \<lparr>active_span_id = Value (Some ''outer-0''), calls = []\<rparr>"

definition example_raising_operation :: "nat ctx \<Rightarrow> ((exn + nat) \<times> nat ctx) option" where
  "example_raising_operation t =
     Some (Inl (Exn ''ValueError'' ''bad input''), t\<lparr>active_span_id := Value None\<rparr>)"

text \<open>
  Dispatchers whose walk does not end at a dispatcher that does not propagate: one
  made by the constructor with its defaults but for the name and the handlers (no
  manager, propagation on), and a root that is registered in a manager, has no parent
  and propagates. An operation that raises an exception whose \<^verbatim>\<open>__str__\<close> raises.
  A schedule for every \<open>gather\<close> call of \<open>batch_gather\<close>.
\<close>

definition example_orphan :: "nat dispatcher" where
  "example_orphan =
     \<lparr>name = ''x'', event_handlers = [example_handler 5], span_handlers = [example_handler 6],
      parent_name = [], manager = None, root_name = ''root'', propagate = True\<rparr>"

definition example_propagating_root :: "nat dispatcher" where
  "example_propagating_root =
     \<lparr>name = ''root'', event_handlers = [example_handler 8], span_handlers = [example_handler 9],
      parent_name = [], manager = Some 0, root_name = ''root'', propagate = True\<rparr>"

definition example_root_managers :: "nat managers" where
  "example_root_managers = (\<lambda>m. [''root'' \<mapsto> example_propagating_root])"

definition example_bad_str_operation :: "nat ctx \<Rightarrow> ((exn + nat) \<times> nat ctx) option" where
  "example_bad_str_operation t =
     Some (Inl (Exn_bad_str ''BadError''
                  (Exn ''TypeError'' ''__str__ returned non-string (type int)'')), t)"

definition example_schedule :: "nat \<Rightarrow> nat list" where
  "example_schedule k = [0, 0]"


section \<open>The loop: invariants\<close>

lemma set_enabled:
  "set (enabled L) =
     {Acquire i | i. i < length (children L) \<and> is_waiting (children L ! i) \<and> 0 < permits L} \<union>
     {Finish i | i. i < length (children L) \<and> is_running (children L ! i)}"
  by (auto simp: enabled_def)

lemma exec_invariant:
  assumes "P L" and step: "\<And>L s. P L \<Longrightarrow> s \<in> set (enabled L) \<Longrightarrow> P (fire s L)"
  shows "P (exec ks L)"
  using assms(1)
proof (induction ks arbitrary: L)
  case Nil
  then show ?case by simp
next
  case (Cons k ks)
  show ?case
  proof (cases "enabled L")
    case Nil
    with Cons.prems show ?thesis by simp
  next
    case (Cons e es)
    have "(e # es) ! (k mod length (e # es)) \<in> set (enabled L)"
      unfolding Cons[symmetric] by (rule nth_mem) (simp add: Cons)
    then have "P (fire ((e # es) ! (k mod length (e # es))) L)"
      using Cons.prems step by blast
    then show ?thesis using Cons Cons.IH by simp
  qed
qed

lemma count_update:
  "i < length xs \<Longrightarrow>
   int (length (filter P (xs[i := y]))) =
   int (length (filter P xs)) - of_bool (P (xs ! i)) + of_bool (P y)"
proof (induction xs arbitrary: i)
  case Nil
  then show ?case by simp
next
  case (Cons x xs)
  then show ?case by (cases i) auto
qed

lemma weight_update:
  "i < length xs \<Longrightarrow>
   int (sum_list (map weight (xs[i := y]))) =
   int (sum_list (map weight xs)) - int (weight (xs ! i)) + int (weight y)"
proof (induction xs arbitrary: i)
  case Nil
  then show ?case by simp
next
  case (Cons x xs)
  then show ?case by (cases i) auto
qed

lemma children_done_callback [simp]: "children (done_callback r L) = children L"
  by (simp add: done_callback_def split: option.splits sum.splits)

lemma permits_done_callback [simp]: "permits (done_callback r L) = permits L"
  by (simp add: done_callback_def split: option.splits sum.splits)

lemma is_waiting_iff: "is_waiting t \<longleftrightarrow> snd t = Waiting"
  by (cases t rule: is_waiting.cases) auto

lemma is_running_iff: "is_running t \<longleftrightarrow> snd t = Running"
  by (cases t rule: is_running.cases) auto

lemma tracks_fst: "tracks j t \<Longrightarrow> fst t = Worker j"
  by (cases "(j, t)" rule: tracks.cases) auto

lemma accounted_fire:
  assumes "accounted jobs w L" and "s \<in> set (enabled L)"
  shows "accounted jobs w (fire s L)"
proof -
  from assms(1) have tr: "list_all2 tracks jobs (children L)" and p0: "0 \<le> permits L"
    and sum: "permits L + int (running_count L) = w"
    by (simp_all add: accounted_def)
  from assms(2) consider
    (acq) i where "s = Acquire i" "i < length (children L)" "is_waiting (children L ! i)" "0 < permits L"
  | (fin) i where "s = Finish i" "i < length (children L)" "is_running (children L ! i)"
    by (auto simp: set_enabled)
  then show ?thesis
  proof cases
    case acq
    from tr acq(2) have ti: "tracks (jobs ! i) (children L ! i)"
      by (simp add: list_all2_nthD2)
    have nr: "\<not> is_running (children L ! i)"
      using acq(3) by (simp add: is_waiting_iff is_running_iff)
    have "tracks (jobs ! i) (fst (children L ! i), Running)"
      using ti by (simp add: tracks_fst)
    with tr have "list_all2 tracks (jobs[i := jobs ! i]) ((children L)[i := (fst (children L ! i), Running)])"
      by (rule list_all2_update_cong)
    then have tr': "list_all2 tracks jobs ((children L)[i := (fst (children L ! i), Running)])"
      by simp
    show ?thesis
      using acq tr' p0 sum nr
      by (simp add: accounted_def running_count_def count_update)
  next
    case fin
    from tr fin(2) have ti: "tracks (jobs ! i) (children L ! i)"
      by (simp add: list_all2_nthD2)
    then have w: "fst (children L ! i) = Worker (jobs ! i)" by (rule tracks_fst)
    have "tracks (jobs ! i) (Worker (jobs ! i), Done (jobs ! i))" by simp
    with tr have "list_all2 tracks (jobs[i := jobs ! i]) ((children L)[i := (Worker (jobs ! i), Done (jobs ! i))])"
      by (rule list_all2_update_cong)
    then have tr': "list_all2 tracks jobs ((children L)[i := (Worker (jobs ! i), Done (jobs ! i))])"
      by simp
    show ?thesis
      using fin tr' p0 sum w
      by (simp add: accounted_def running_count_def count_update Let_def)
  qed
qed

lemma accounted_start:
  "0 \<le> w \<Longrightarrow> accounted jobs w (gather_start w (map Worker jobs))"
proof -
  have a: "list_all2 tracks jobs (map start (map Worker jobs))"
    by (induction jobs) simp_all
  have b: "filter is_running (map start (map Worker jobs)) = []"
    by (induction jobs) simp_all
  assume "0 \<le> w"
  with a b show ?thesis by (simp add: accounted_def gather_start_def running_count_def)
qed

lemma accounted_exec:
  "0 \<le> w \<Longrightarrow> accounted jobs w (exec sched (gather_start w (map Worker jobs)))"
  by (rule exec_invariant[where P = "accounted jobs w"]) (simp_all add: accounted_start accounted_fire)


section \<open>The loop: progress\<close>

lemma todo_fire:
  assumes "s \<in> set (enabled L)"
  shows "Suc (todo (fire s L)) = todo L"
proof -
  from assms consider
    (acq) i where "s = Acquire i" "i < length (children L)" "is_waiting (children L ! i)"
  | (fin) i where "s = Finish i" "i < length (children L)" "is_running (children L ! i)"
    by (auto simp: set_enabled)
  then have "int (todo (fire s L)) + 1 = int (todo L)"
  proof cases
    case acq
    from acq(3) have "weight (children L ! i) = 2"
      by (cases "children L ! i" rule: weight.cases) auto
    with acq show ?thesis by (simp add: todo_def weight_update)
  next
    case fin
    from fin(3) have "weight (children L ! i) = 1"
      by (cases "children L ! i" rule: weight.cases) auto
    with fin show ?thesis by (simp add: todo_def weight_update Let_def)
  qed
  then show ?thesis by linarith
qed

lemma weight_pos_nth:
  "0 < sum_list (map weight ts) \<Longrightarrow> \<exists>i < length ts. 0 < weight (ts ! i)"
proof (induction ts)
  case Nil
  then show ?case by simp
next
  case (Cons t ts)
  show ?case
  proof (cases "0 < weight t")
    case True
    then have "0 < weight ((t # ts) ! 0)" by simp
    then show ?thesis by blast
  next
    case False
    with Cons obtain i where "i < length ts" "0 < weight (ts ! i)" by auto
    then have "Suc i < length (t # ts)" "0 < weight ((t # ts) ! Suc i)" by simp_all
    then show ?thesis by blast
  qed
qed

lemma no_deadlock:
  assumes acc: "accounted jobs w L" and w: "1 \<le> w" and todo: "0 < todo L"
  shows "enabled L \<noteq> []"
proof -
  from todo obtain i where i: "i < length (children L)" "0 < weight (children L ! i)"
    unfolding todo_def using weight_pos_nth by blast
  show ?thesis
  proof (cases "\<exists>k < length (children L). is_running (children L ! k)")
    case True
    then obtain k where "Finish k \<in> set (enabled L)" by (auto simp: set_enabled)
    then show ?thesis by auto
  next
    case False
    then have "\<forall>t \<in> set (children L). \<not> is_running t"
      by (metis in_set_conv_nth)
    then have "filter is_running (children L) = []"
      by (simp add: filter_empty_conv)
    with acc w have p: "0 < permits L" by (simp add: accounted_def running_count_def)
    from False i(1) have "\<not> is_running (children L ! i)" by blast
    with i(2) have "is_waiting (children L ! i)"
      by (cases "children L ! i" rule: weight.cases) auto
    with i(1) p have "Acquire i \<in> set (enabled L)" by (auto simp: set_enabled)
    then show ?thesis by auto
  qed
qed

lemma exec_todo_invariant:
  assumes "P L"
    and step: "\<And>L s. P L \<Longrightarrow> s \<in> set (enabled L) \<Longrightarrow> P (fire s L)"
    and live: "\<And>L. P L \<Longrightarrow> 0 < todo L \<Longrightarrow> enabled L \<noteq> []"
  shows "todo (exec ks L) \<le> todo L - length ks"
  using assms(1)
proof (induction ks arbitrary: L)
  case Nil
  then show ?case by simp
next
  case (Cons k ks)
  show ?case
  proof (cases "enabled L")
    case Nil
    with Cons.prems have "todo L = 0" using live by fastforce
    with Nil show ?thesis by simp
  next
    case (Cons e es)
    let ?s = "(e # es) ! (k mod length (e # es))"
    have mem: "?s \<in> set (enabled L)"
      unfolding Cons[symmetric] by (rule nth_mem) (simp add: Cons)
    then have "P (fire ?s L)" using Cons.prems step by blast
    then have "todo (exec ks (fire ?s L)) \<le> todo (fire ?s L) - length ks" by (rule Cons.IH)
    moreover from mem have "Suc (todo (fire ?s L)) = todo L" by (rule todo_fire)
    ultimately show ?thesis using Cons by simp
  qed
qed

lemma exec_todo:
  assumes "accounted jobs w L" and "1 \<le> w"
  shows "todo (exec ks L) \<le> todo L - length ks"
proof (rule exec_todo_invariant[where P = "accounted jobs w"])
  show "accounted jobs w L" by (rule assms(1))
  show "accounted jobs w (fire s L')" if "accounted jobs w L'" "s \<in> set (enabled L')" for L' s
    using that by (rule accounted_fire)
  show "enabled L' \<noteq> []" if "accounted jobs w L'" "0 < todo L'" for L'
    using that(1) assms(2) that(2) by (rule no_deadlock)
qed

lemma all_done:
  "list_all2 tracks jobs ts \<Longrightarrow> sum_list (map weight ts) = 0 \<Longrightarrow>
   ts = map (\<lambda>j. (Worker j, Done j)) jobs"
proof (induction rule: list_all2_induct)
  case Nil
  then show ?case by simp
next
  case (Cons j js t ts)
  from Cons.prems have "weight t = 0" by simp
  with Cons.hyps(1) have "t = (Worker j, Done j)"
    by (cases "(j, t)" rule: tracks.cases) auto
  with Cons show ?case by simp
qed

lemma todo_start: "todo (gather_start w (map Worker jobs)) = 2 * length jobs"
  by (induction jobs) (simp_all add: todo_def gather_start_def)

lemma run_to_completion:
  assumes "1 \<le> w" and "2 * length jobs \<le> length sched"
  shows "children (exec sched (gather_start w (map Worker jobs))) = map (\<lambda>j. (Worker j, Done j)) jobs"
proof -
  let ?L = "exec sched (gather_start w (map Worker jobs))"
  from assms(1) have w0: "0 \<le> w" by simp
  have "todo ?L \<le> todo (gather_start w (map Worker jobs)) - length sched"
    using accounted_start[OF w0] assms(1) by (rule exec_todo)
  with assms(2) have "todo ?L = 0" by (simp add: todo_start)
  moreover have "list_all2 tracks jobs (children ?L)"
    using accounted_exec[OF w0, of jobs sched] by (simp add: accounted_def)
  ultimately show ?thesis by (simp add: all_done todo_def)
qed


section \<open>The loop: the outer future of gather\<close>

lemma results_pending:
  "i < length ts \<Longrightarrow> snd (ts ! i) = Waiting \<or> snd (ts ! i) = Running \<Longrightarrow> results ts = None"
proof (induction ts arbitrary: i rule: results.induct)
  case 1
  then show ?case by simp
next
  case (2 c v ts)
  then show ?case by (cases i) auto
qed simp_all

lemma failed_update:
  "i < length ts \<Longrightarrow> \<not> is_failed (ts ! i) \<Longrightarrow>
   (\<exists>t \<in> set (ts[i := y]). is_failed t) \<longleftrightarrow> is_failed y \<or> (\<exists>t \<in> set ts. is_failed t)"
proof (induction ts arbitrary: i)
  case Nil
  then show ?case by simp
next
  case (Cons t ts)
  then show ?case by (cases i) auto
qed

lemma mem_update:
  "t \<in> set ts \<Longrightarrow> t \<noteq> ts ! i \<Longrightarrow> t \<in> set (ts[i := y])"
proof (induction ts arbitrary: i)
  case Nil
  then show ?case by simp
next
  case (Cons x ts)
  then show ?case by (cases i) auto
qed

lemma surfaced_fire:
  assumes sf: "surfaced L" and en: "s \<in> set (enabled L)"
  shows "surfaced (fire s L)"
proof -
  from en consider
    (acq) i where "s = Acquire i" "i < length (children L)" "is_waiting (children L ! i)"
  | (fin) i where "s = Finish i" "i < length (children L)" "is_running (children L ! i)"
    by (auto simp: set_enabled)
  then show ?thesis
  proof cases
    case acq
    let ?ts = "(children L)[i := (fst (children L ! i), Running)]"
    from acq(3) have wi: "snd (children L ! i) = Waiting" by (simp add: is_waiting_iff)
    then have nf: "\<not> is_failed (children L ! i)"
      by (cases "children L ! i" rule: is_failed.cases) auto
    have fl: "(\<exists>t \<in> set ?ts. is_failed t) \<longleftrightarrow> (\<exists>t \<in> set (children L). is_failed t)"
      using failed_update[OF acq(2) nf] by simp
    have r0: "results (children L) = None"
      using acq(2) wi results_pending by blast
    have r1: "results ?ts = None"
      using acq(2) by (intro results_pending[of i]) simp_all
    show ?thesis
    proof (cases "\<exists>t \<in> set (children L). is_failed t")
      case True
      with sf obtain e c where o: "outer L = Some (Inl e)" and m: "(c, Done (Inl e)) \<in> set (children L)"
        by (auto simp: surfaced_def)
      from wi have "(c, Done (Inl e)) \<noteq> children L ! i" by (cases "children L ! i") auto
      with m have "(c, Done (Inl e)) \<in> set ?ts" by (rule mem_update)
      with o True fl acq(1) show ?thesis by (auto simp: surfaced_def)
    next
      case False
      with sf have "outer L = None" by (simp add: surfaced_def r0)
      with False fl r1 acq(1) show ?thesis by (simp add: surfaced_def)
    qed
  next
    case fin
    let ?c = "fst (children L ! i)"
    let ?ts = "(children L)[i := (?c, Done (outcome ?c))]"
    let ?L1 = "L\<lparr>permits := release ?c (permits L), children := ?ts\<rparr>"
    from fin(3) have ri: "snd (children L ! i) = Running" by (simp add: is_running_iff)
    then have nf: "\<not> is_failed (children L ! i)"
      by (cases "children L ! i" rule: is_failed.cases) auto
    have fl: "(\<exists>t \<in> set ?ts. is_failed t) \<longleftrightarrow>
        is_failed (?c, Done (outcome ?c)) \<or> (\<exists>t \<in> set (children L). is_failed t)"
      by (rule failed_update[OF fin(2) nf])
    have r0: "results (children L) = None"
      using fin(2) ri results_pending by blast
    have fire: "fire s L = done_callback (outcome ?c) ?L1"
      using fin(1) by (simp add: Let_def)
    show ?thesis
    proof (cases "\<exists>t \<in> set (children L). is_failed t")
      case True
      with sf obtain e c where o: "outer L = Some (Inl e)" and m: "(c, Done (Inl e)) \<in> set (children L)"
        by (auto simp: surfaced_def)
      from ri have "(c, Done (Inl e)) \<noteq> children L ! i" by (cases "children L ! i") auto
      with m have "(c, Done (Inl e)) \<in> set ?ts" by (rule mem_update)
      moreover have "outer (fire s L) = Some (Inl e)"
        using o by (simp add: fire done_callback_def)
      ultimately show ?thesis using True fl by (auto simp: surfaced_def fire)
    next
      case False
      with sf have o: "outer L = None" by (simp add: surfaced_def r0)
      show ?thesis
      proof (cases "outcome ?c")
        case (Inl e)
        have "(?c, Done (Inl e)) \<in> set ?ts"
          using fin(2) Inl by (simp add: set_update_memI)
        moreover have "outer (fire s L) = Some (Inl e)"
          using o Inl by (simp add: fire done_callback_def)
        moreover have "\<exists>t \<in> set ?ts. is_failed t"
          using fl Inl by simp
        ultimately show ?thesis by (auto simp: surfaced_def fire)
      next
        case (Inr v)
        have "\<not> (\<exists>t \<in> set ?ts. is_failed t)"
          using fl False Inr by simp
        moreover have "outer (fire s L) = map_option Inr (results ?ts)"
          using o Inr by (simp add: fire done_callback_def split: option.splits)
        ultimately show ?thesis by (simp add: surfaced_def fire)
      qed
    qed
  qed
qed

lemma surfaced_start: "surfaced (gather_start w (map Worker jobs))"
proof -
  have a: "\<not> is_failed t" if "t \<in> set (map start (map Worker jobs))" for t
    using that by auto
  have b: "results (map start (map Worker jobs)) = (if jobs = [] then Some [] else None)"
    by (cases jobs) simp_all
  from a b show ?thesis by (auto simp: surfaced_def gather_start_def)
qed

lemma surfaced_exec: "surfaced (exec sched (gather_start w (map Worker jobs)))"
  by (rule exec_invariant[where P = surfaced]) (simp_all add: surfaced_start surfaced_fire)

lemma results_done:
  "\<forall>j \<in> set jobs. \<exists>v. j = Inr v \<Longrightarrow>
   results (map (\<lambda>j. (Worker j, Done j)) jobs) = Some (map projr jobs)"
  by (induction jobs) auto

lemma no_failed_done:
  "\<forall>j \<in> set jobs. \<exists>v. j = Inr v \<Longrightarrow>
   \<not> (\<exists>t \<in> set (map (\<lambda>j. (Worker j, Done j)) jobs). is_failed t)"
  by (induction jobs) auto




lemma enabled_no_permits: "enabled (gather_start 0 (map Worker jobs)) = []"
proof -
  have "\<not> is_running (map start (map Worker jobs) ! i)" if "i < length jobs" for i
    using that by simp
  then have "set (enabled (gather_start 0 (map Worker jobs))) = {}"
    by (auto simp: set_enabled gather_start_def)
  then show ?thesis by simp
qed

lemma exec_stuck: "enabled L = [] \<Longrightarrow> exec sched L = L"
  by (cases sched) simp_all


section \<open>The dispatcher: the walk over the chain\<close>

lemma except_pass_invoke:
  "except_pass (invoke h cl s) = (Inr (), s\<lparr>calls := calls s @ [(hid h, cl)]\<rparr>)"
  by (cases "raises h cl") (simp_all add: invoke_def)

lemma for_handlers_all:
  "for_handlers hs cl s = (Inr (), s\<lparr>calls := calls s @ map (\<lambda>h. (hid h, cl)) hs\<rparr>)"
proof (induction hs arbitrary: s)
  case Nil
  then show ?case by simp
next
  case (Cons h hs)
  then show ?case by (simp add: except_pass_invoke)
qed

lemma notify_chain_nonempty: "notify_chain M c ps \<Longrightarrow> ps \<noteq> []"
  by (induction rule: notify_chain.induct) simp_all

lemma walk_chain:
  assumes "notify_chain M c ps"
  shows "walk M handlers_of cl c s =
           Some (chain_end M ps, s\<lparr>calls := calls s @ chain_calls handlers_of cl ps\<rparr>)"
  using assms
proof (induction arbitrary: s rule: notify_chain.induct)
  case (stop c)
  then show ?case
    by (subst walk.simps) (simp add: for_handlers_all chain_end_def chain_calls_def)
next
  case (root c e)
  then show ?case
    by (subst walk.simps) (simp add: for_handlers_all chain_end_def chain_calls_def)
next
  case (up c p ps)
  from up.hyps(3) have ne: "ps \<noteq> []" by (rule notify_chain_nonempty)
  then have e: "chain_end M (c # ps) = chain_end M ps" by (simp add: chain_end_def)
  show ?case
    using up.hyps(1,2)
    by (subst walk.simps) (simp add: for_handlers_all up.IH e chain_calls_def)
qed

lemma chain_calls_mem:
  "c \<in> set ps \<Longrightarrow> h \<in> set (handlers_of c) \<Longrightarrow> (hid h, cl) \<in> set (chain_calls handlers_of cl ps)"
  by (auto simp: chain_calls_def)

lemma chain_end_stop: "\<not> propagate (last ps) \<Longrightarrow> chain_end M ps = Inr ()"
  by (simp add: chain_end_def)


lemma walk_returns_chain:
  assumes "walk M handlers_of cl c s = Some y"
  shows "\<exists>ps. notify_chain M c ps \<and> (fst y = Inr () \<longrightarrow> \<not> propagate (last ps))"
proof (rule walk.raw_induct
    [where P = "\<lambda>M handlers_of cl c s y.
       \<exists>ps. notify_chain M c ps \<and> (fst y = Inr () \<longrightarrow> \<not> propagate (last ps))",
     OF _ assms], goal_cases)
  case (1 walk' M handlers_of cl c s y)
  show ?case
  proof (cases "propagate c")
    case False
    then have "notify_chain M c [c]" by (rule notify_chain.stop)
    with False show ?thesis by force
  next
    case True
    show ?thesis
    proof (cases "parent M c")
      case (Inl e)
      with True have ch: "notify_chain M c [c]" by (rule notify_chain.root)
      from 1(2) True Inl have "fst y = Inl e"
        by (auto simp: for_handlers_all)
      with ch show ?thesis by force
    next
      case (Inr p)
      from 1(2) True Inr have "walk' M handlers_of cl p (snd (for_handlers (handlers_of c) cl s)) = Some y"
        by (simp add: for_handlers_all)
      then obtain ps where ps: "notify_chain M p ps" "fst y = Inr () \<longrightarrow> \<not> propagate (last ps)"
        using 1(1) by blast
      from ps(1) have "ps \<noteq> []" by (rule notify_chain_nonempty)
      then have "last (c # ps) = last ps" by simp
      moreover from True Inr ps(1) have "notify_chain M c (c # ps)" by (rule notify_chain.up)
      ultimately show ?thesis using ps(2) by metis
    qed
  qed
qed

lemma wrapper_entered:
  assumes en: "span_enter M self (qualname @ ''-'' @ uuid4) bound_args instance
                 (case active_span_id s of MISSING \<Rightarrow> None | Value old_value \<Rightarrow> old_value)
                 (s\<lparr>active_span_id := Value (Some (qualname @ ''-'' @ uuid4))\<rparr>) = Some (Inr u, s2)"
  shows "\<exists>ps. notify_chain M self ps \<and>
     active_span_id s2 = Value (Some (qualname @ ''-'' @ uuid4)) \<and>
     calls s2 = calls s @ chain_calls span_handlers
         (Span_enter (qualname @ ''-'' @ uuid4) bound_args instance
            (case active_span_id s of MISSING \<Rightarrow> None | Value old_value \<Rightarrow> old_value)) ps \<and>
     wrapper M self qualname uuid4 (Inr bound_args) instance func s =
     finally_reset (active_span_id s)
       (case func s2 of
          None \<Rightarrow> None
        | Some (Inl e, s3) \<Rightarrow>
            (case str e of
               Inl e' \<Rightarrow> Some (Inl e', s3)
             | Inr msg \<Rightarrow>
                 Some (Inl e, s3\<lparr>calls := calls s3 @
                   chain_calls event_handlers (Handle (SpanDropEvent (qualname @ ''-'' @ uuid4) msg)) ps @
                   chain_calls span_handlers (Span_drop (qualname @ ''-'' @ uuid4) bound_args instance (Some e)) ps\<rparr>))
        | Some (Inr result, s3) \<Rightarrow>
            Some (Inr result, s3\<lparr>calls := calls s3 @
                   chain_calls span_handlers (Span_exit (qualname @ ''-'' @ uuid4) bound_args instance result) ps\<rparr>))"
proof -
  from en obtain ps where ch: "notify_chain M self ps" and st: "\<not> propagate (last ps)"
    unfolding span_enter_def using walk_returns_chain by fastforce
  note w = walk_chain[OF ch] chain_end_stop[OF st]
  from en have s2: "s2 = s\<lparr>active_span_id := Value (Some (qualname @ ''-'' @ uuid4)),
       calls := calls s @ chain_calls span_handlers
         (Span_enter (qualname @ ''-'' @ uuid4) bound_args instance
            (case active_span_id s of MISSING \<Rightarrow> None | Value old_value \<Rightarrow> old_value)) ps\<rparr>"
    by (simp add: span_enter_def w)
  have "wrapper M self qualname uuid4 (Inr bound_args) instance func s =
     finally_reset (active_span_id s)
       (case func s2 of
          None \<Rightarrow> None
        | Some (Inl e, s3) \<Rightarrow>
            (case str e of
               Inl e' \<Rightarrow> Some (Inl e', s3)
             | Inr msg \<Rightarrow>
                 Some (Inl e, s3\<lparr>calls := calls s3 @
                   chain_calls event_handlers (Handle (SpanDropEvent (qualname @ ''-'' @ uuid4) msg)) ps @
                   chain_calls span_handlers (Span_drop (qualname @ ''-'' @ uuid4) bound_args instance (Some e)) ps\<rparr>))
        | Some (Inr result, s3) \<Rightarrow>
            Some (Inr result, s3\<lparr>calls := calls s3 @
                   chain_calls span_handlers (Span_exit (qualname @ ''-'' @ uuid4) bound_args instance result) ps\<rparr>))"
    unfolding s2
    by (simp add: wrapper_def set_active_def span_enter_def event_def span_drop_def
        span_exit_def w Let_def split: option.splits sum.splits prod.splits)
  with ch s2 show ?thesis by auto
qed

lemma example_chain: "notify_chain example_managers example_child [example_child, example_root]"
proof -
  have "notify_chain example_managers example_root [example_root]"
    by (rule notify_chain.stop) (simp add: example_root_def)
  moreover have "propagate example_child" by (simp add: example_child_def)
  moreover have "parent example_managers example_child = Inr example_root"
    by (simp add: parent_def example_child_def example_managers_def)
  ultimately show ?thesis by (rule notify_chain.up[rotated 2])
qed


lemma notify_chain_unique:
  "notify_chain M c ps \<Longrightarrow> notify_chain M c qs \<Longrightarrow> ps = qs"
proof (induction arbitrary: qs rule: notify_chain.induct)
  case (stop c)
  from stop.prems stop.hyps show ?case by (cases rule: notify_chain.cases) auto
next
  case (root c e)
  from root.prems root.hyps show ?case by (cases rule: notify_chain.cases) auto
next
  case (up c p ps)
  from up.prems up.hyps(1,2) obtain qs' where "qs = c # qs'" "notify_chain M p qs'"
    by (cases rule: notify_chain.cases) auto
  with up.IH show ?case by simp
qed

lemmas example_defs =
  example_failing_handler_def example_handler_def example_root_def example_child_def
  example_ctx_def example_raising_operation_def example_orphan_def
  example_propagating_root_def example_bad_str_operation_def

lemma example_orphan_chain: "notify_chain M example_orphan [example_orphan]"
proof (rule notify_chain.root)
  show "propagate example_orphan" by (simp add: example_orphan_def)
  show "parent M example_orphan = Inl AttributeError_manager"
    by (simp add: parent_def example_orphan_def)
qed

lemma example_propagating_root_chain:
  "notify_chain example_root_managers example_propagating_root [example_propagating_root]"
proof (rule notify_chain.root)
  show "propagate example_propagating_root" by (simp add: example_propagating_root_def)
  show "parent example_root_managers example_propagating_root = Inl (KeyError [])"
    by (simp add: parent_def example_propagating_root_def example_root_managers_def)
qed

lemma notify_chain_last:
  "notify_chain M c ps \<Longrightarrow>
   propagate (last ps) \<Longrightarrow> \<exists>e. parent M (last ps) = Inl e \<and> chain_end M ps = Inl e"
proof (induction rule: notify_chain.induct)
  case (stop c)
  then show ?case by simp
next
  case (root c e)
  then show ?case by (simp add: chain_end_def)
next
  case (up c p ps)
  from up.hyps(3) have "ps \<noteq> []" by (rule notify_chain_nonempty)
  with up show ?case by (simp add: chain_end_def)
qed

lemma example_entered:
  "span_enter example_managers example_child ''f-1'' 5 None (Some ''outer-0'')
     (example_ctx\<lparr>active_span_id := Value (Some ''f-1'')\<rparr>) =
   Some (Inr (),
         \<lparr>active_span_id = Value (Some ''f-1''),
          calls = [(1, Span_enter ''f-1'' 5 None (Some ''outer-0'')),
                   (2, Span_enter ''f-1'' 5 None (Some ''outer-0'')),
                   (4, Span_enter ''f-1'' 5 None (Some ''outer-0''))]\<rparr>)"
  unfolding span_enter_def walk_chain[OF example_chain]
  by (simp add: chain_end_def chain_calls_def example_defs)


section \<open>batch_gather: whole batches and a padded final chunk\<close>

text \<open>
  The loop of \<open>batch_gather\<close> over the tuples that \<open>zip_longest\<close> yields for \<open>n\<close>
  slots: jobs that all succeed, a positive \<open>n\<close> and schedules long enough for a batch.
  When \<open>n\<close> divides the number of jobs, the loop returns the results of all jobs in
  submission order. When it does not, the final tuple is padded with \<open>None\<close> and the
  loop raises the \<open>TypeError\<close> of \<open>gather\<close>.
\<close>

lemma read_slots_eq:
  "read_slots n it = (map Some (take n it) @ replicate (n - length it) None, drop n it)"
  by (induction n it rule: read_slots.induct) (simp_all add: replicate_app_Cons_same)

lemma plain_fire:
  assumes tr: "list_all2 plain_tracks js (children L)" and en: "s \<in> set (enabled L)"
  shows "list_all2 plain_tracks js (children (fire s L))"
proof -
  from en consider
    (acq) i where "s = Acquire i" "i < length (children L)" "is_waiting (children L ! i)"
  | (fin) i where "s = Finish i" "i < length (children L)" "is_running (children L ! i)"
    by (auto simp: set_enabled)
  then show ?thesis
  proof cases
    case acq
    from tr acq(2) have "plain_tracks (js ! i) (children L ! i)" by (simp add: list_all2_nthD2)
    with acq(3) have False
      by (cases "(js ! i, children L ! i)" rule: plain_tracks.cases) auto
    then show ?thesis ..
  next
    case fin
    from tr fin(2) have "plain_tracks (js ! i) (children L ! i)" by (simp add: list_all2_nthD2)
    with fin(3) have c: "fst (children L ! i) = Plain (js ! i)"
      by (cases "(js ! i, children L ! i)" rule: plain_tracks.cases) auto
    have "plain_tracks (js ! i) (Plain (js ! i), Done (js ! i))" by simp
    with tr have "list_all2 plain_tracks (js[i := js ! i])
        ((children L)[i := (Plain (js ! i), Done (js ! i))])"
      by (rule list_all2_update_cong)
    with fin(1) c show ?thesis by (simp add: Let_def)
  qed
qed

lemma plain_live:
  assumes tr: "list_all2 plain_tracks js (children L)" and todo: "0 < todo L"
  shows "enabled L \<noteq> []"
proof -
  from todo obtain i where i: "i < length (children L)" "0 < weight (children L ! i)"
    unfolding todo_def using weight_pos_nth by blast
  from tr i(1) have "plain_tracks (js ! i) (children L ! i)" by (simp add: list_all2_nthD2)
  with i(2) have "is_running (children L ! i)"
    by (cases "(js ! i, children L ! i)" rule: plain_tracks.cases) auto
  with i(1) have "Finish i \<in> set (enabled L)" by (auto simp: set_enabled)
  then show ?thesis by auto
qed

lemma plain_all_done:
  "list_all2 plain_tracks js ts \<Longrightarrow> sum_list (map weight ts) = 0 \<Longrightarrow>
   ts = map (\<lambda>j. (Plain j, Done j)) js"
proof (induction rule: list_all2_induct)
  case Nil
  then show ?case by simp
next
  case (Cons j js t ts)
  from Cons.prems have "weight t = 0" by simp
  with Cons.hyps(1) have "t = (Plain j, Done j)"
    by (cases "(j, t)" rule: plain_tracks.cases) auto
  with Cons show ?case by simp
qed

lemma plain_start: "list_all2 plain_tracks js (children (gather_start v (map Plain js)))"
  by (induction js) (simp_all add: gather_start_def)

lemma plain_todo_start: "todo (gather_start v (map Plain js)) = length js"
  by (induction js) (simp_all add: todo_def gather_start_def)

lemma surfaced_start_any: "surfaced (gather_start v cs)"
proof -
  have a: "\<not> is_failed (start c)" for c :: "'a coro" by (cases c) simp_all
  have b: "results (map start cs) = (if cs = [] then Some [] else None)"
  proof (cases cs)
    case Nil
    then show ?thesis by simp
  next
    case (Cons c cs')
    then show ?thesis by (cases c) simp_all
  qed
  from a b show ?thesis by (auto simp: surfaced_def gather_start_def)
qed

lemma plain_results_done:
  "\<forall>j \<in> set js. \<exists>v. j = Inr v \<Longrightarrow>
   results (map (\<lambda>j. (Plain j, Done j)) js) = Some (map projr js) \<and>
   \<not> (\<exists>t \<in> set (map (\<lambda>j. (Plain j, Done j)) js). is_failed t)"
  by (induction js) auto

lemma ensure_futures_all: "ensure_futures (map Some cs) = Inr cs"
  by (induction cs) simp_all

lemma ensure_futures_padded: "ensure_futures (map Some cs @ None # args) = Inl TypeError_not_awaitable"
  by (induction cs) simp_all

lemma gather_plain:
  assumes ok: "\<forall>j \<in> set js. \<exists>v. j = Inr v" and len: "length js \<le> length sched"
  shows "gather v (map (map_option Plain) (map Some js)) sched = Some (Inr (map projr js))"
proof -
  let ?L = "exec sched (gather_start v (map Plain js))"
  have args: "map (map_option Plain) (map Some js) = map Some (map Plain js)" by simp
  have tr: "list_all2 plain_tracks js (children ?L)"
    by (rule exec_invariant[where P = "\<lambda>L. list_all2 plain_tracks js (children L)"])
      (simp_all add: plain_start plain_fire)
  have "todo ?L \<le> todo (gather_start v (map Plain js)) - length sched"
    by (rule exec_todo_invariant[where P = "\<lambda>L. list_all2 plain_tracks js (children L)"])
      (simp_all add: plain_start plain_fire plain_live)
  with len have "todo ?L = 0" by (simp add: plain_todo_start)
  with tr have ch: "children ?L = map (\<lambda>j. (Plain j, Done j)) js"
    by (simp add: plain_all_done todo_def)
  have "surfaced ?L"
    by (rule exec_invariant[where P = surfaced]) (simp_all add: surfaced_start_any surfaced_fire)
  with ch plain_results_done[OF ok] have "outer ?L = Some (Inr (map projr js))"
    by (simp add: surfaced_def)
  then show ?thesis unfolding gather_def args ensure_futures_all by simp
qed

lemma batch_loop_whole:
  shows "0 < n \<Longrightarrow> n dvd length it \<Longrightarrow> \<forall>j \<in> set it. \<exists>v. j = Inr v \<Longrightarrow>
         \<forall>k. n \<le> length (sched k) \<Longrightarrow>
         batch_loop (zip_longest_shared n it) sched k out g =
           (Some (Inr (out @ map projr it)), g @ zip_longest_shared n it)"
proof (induction n it arbitrary: k out g rule: zip_longest_shared.induct)
  case (1 n it)
  note n = "1.prems"(1) and dvd = "1.prems"(2) and ok = "1.prems"(3) and sched = "1.prems"(4)
  show ?case
  proof (cases "it = []")
    case True
    with n show ?thesis
      by (subst (1 2) zip_longest_shared.simps) (simp add: read_slots_eq list_all_iff)
  next
    case False
    with dvd n have ge: "n \<le> length it" by (auto dest: dvd_imp_le)
    then have t: "read_slots n it = (map Some (take n it), drop n it)"
      by (simp add: read_slots_eq)
    from False n have some: "\<not> list_all (\<lambda>v. v = None) (map Some (take n it))"
      by (cases it) (auto simp: list_all_iff)
    have z: "zip_longest_shared n it = map Some (take n it) # zip_longest_shared n (drop n it)"
      using n some by (subst zip_longest_shared.simps) (simp add: t)
    have okt: "\<forall>j \<in> set (take n it). \<exists>v. j = Inr v"
      using ok by (auto dest: in_set_takeD)
    have okd: "\<forall>j \<in> set (drop n it). \<exists>v. j = Inr v"
      using ok by (auto dest: in_set_dropD)
    have "length (take n it) \<le> length (sched k)" using sched ge by (simp add: min_absorb2)
    with okt have gth: "gather 0 (map (map_option Plain) (map Some (take n it))) (sched k) =
        Some (Inr (map projr (take n it)))"
      by (rule gather_plain)
    have dv: "n dvd length (drop n it)" using dvd ge by (simp add: dvd_diff_nat)
    have nz: "n \<noteq> 0" using n by simp
    have ih: "batch_loop (zip_longest_shared n (drop n it)) sched (Suc k)
        (out @ map projr (take n it)) (g @ [map Some (take n it)]) =
        (Some (Inr ((out @ map projr (take n it)) @ map projr (drop n it))),
         (g @ [map Some (take n it)]) @ zip_longest_shared n (drop n it))"
      by (rule "1.IH"[OF nz t[symmetric] some n dv okd sched])
    have "map projr (take n it) @ map projr (drop n it) = map projr it"
      by (metis append_take_drop_id map_append)
    with ih gth show ?thesis unfolding z by simp
  qed
qed

lemma batch_loop_padded:
  shows "0 < n \<Longrightarrow> \<not> n dvd length it \<Longrightarrow> \<forall>j \<in> set it. \<exists>v. j = Inr v \<Longrightarrow>
         \<forall>k. n \<le> length (sched k) \<Longrightarrow>
         fst (batch_loop (zip_longest_shared n it) sched k out g) = Some (Inl TypeError_not_awaitable)"
proof (induction n it arbitrary: k out g rule: zip_longest_shared.induct)
  case (1 n it)
  note n = "1.prems"(1) and dvd = "1.prems"(2) and ok = "1.prems"(3) and sched = "1.prems"(4)
  from dvd have ne: "it \<noteq> []" by auto
  show ?case
  proof (cases "n \<le> length it")
    case True
    then have t: "read_slots n it = (map Some (take n it), drop n it)"
      by (simp add: read_slots_eq)
    from ne n have some: "\<not> list_all (\<lambda>v. v = None) (map Some (take n it))"
      by (cases it) (auto simp: list_all_iff)
    have z: "zip_longest_shared n it = map Some (take n it) # zip_longest_shared n (drop n it)"
      using n some by (subst zip_longest_shared.simps) (simp add: t)
    have okt: "\<forall>j \<in> set (take n it). \<exists>v. j = Inr v"
      using ok by (auto dest: in_set_takeD)
    have okd: "\<forall>j \<in> set (drop n it). \<exists>v. j = Inr v"
      using ok by (auto dest: in_set_dropD)
    have "length (take n it) \<le> length (sched k)" using sched True by (simp add: min_absorb2)
    with okt have gth: "gather 0 (map (map_option Plain) (map Some (take n it))) (sched k) =
        Some (Inr (map projr (take n it)))"
      by (rule gather_plain)
    have dv: "\<not> n dvd length (drop n it)"
    proof
      assume "n dvd length (drop n it)"
      then have "n dvd length it - n" by simp
      with True have "n dvd length it" by (simp add: dvd_minus_self)
      with dvd show False by contradiction
    qed
    have nz: "n \<noteq> 0" using n by simp
    have "fst (batch_loop (zip_longest_shared n (drop n it)) sched (Suc k)
        (out @ map projr (take n it)) (g @ [map Some (take n it)])) =
        Some (Inl TypeError_not_awaitable)"
      by (rule "1.IH"[OF nz t[symmetric] some n dv okd sched])
    with gth show ?thesis unfolding z by simp
  next
    case False
    then have t: "read_slots n it = (map Some it @ replicate (n - length it) None, [])"
      by (simp add: read_slots_eq)
    from False obtain m where m: "n - length it = Suc m" by (cases "n - length it") auto
    from ne have some: "\<not> list_all (\<lambda>v. v = None) (map Some it @ replicate (n - length it) None)"
      by (cases it) (auto simp: list_all_iff)
    have z: "zip_longest_shared n it =
        (map Some it @ replicate (n - length it) None) # zip_longest_shared n []"
      using n some by (subst zip_longest_shared.simps) (simp add: t)
    have "map (map_option Plain) (map Some it @ replicate (n - length it) None) =
        map Some (map Plain it) @ None # replicate m None"
      by (simp add: m)
    then have "gather 0 (map (map_option Plain) (map Some it @ replicate (n - length it) None))
        (sched k) = Some (Inl TypeError_not_awaitable)"
      unfolding gather_def by (simp only: ensure_futures_padded) simp
    then show ?thesis unfolding z by simp
  qed
qed

section \<open>batch_gather: a final chunk that is short\<close>

text \<open>
  Claim C1 at three jobs that all succeed and batch size two. \<open>chunks\<close> fills the
  final tuple up with \<open>None\<close>, the second \<open>gather\<close> call gets \<open>None\<close> as an argument and
  raises \<open>TypeError\<close>: \<open>batch_gather\<close> raises instead of returning the three results.
\<close>

theorem batch_gather_short_final_chunk:
  "chunks [Inr (1::nat), Inr 2, Inr 3 :: nat job] 2 =
     Inr [[Some (Inr 1), Some (Inr 2)], [Some (Inr 3), None]] \<and>
   batch_gather [Inr (1::nat), Inr 2, Inr 3] 2 (\<lambda>k. [0, 0]) =
     (Some (Inl TypeError_not_awaitable), [[Some (Inr 1), Some (Inr 2)], [Some (Inr 3), None]])"
  by code_simp

section \<open>run_jobs: results in submission order\<close>

text \<open>
  Claim C2. When every job succeeds (and the worker count is at least one), \<open>run_jobs\<close>
  returns, under every schedule that gives each job the time to be admitted and to
  finish, a list of the same length as the job list whose \<open>i\<close>-th element is the
  result of the \<open>i\<close>-th job; the schedule decides the order in which the jobs finish
  and has no influence on the list. For the empty job list the empty list is
  returned before the loop takes any step.
\<close>

theorem run_jobs_results_in_order:
  assumes "1 \<le> workers" and "\<forall>j \<in> set jobs. \<exists>v. j = Inr v"
    and "2 * length jobs \<le> length sched"
  shows "(\<exists>vs. run_jobs jobs workers sched = Some (Inr vs) \<and> length vs = length jobs \<and>
            (\<forall>i < length jobs. jobs ! i = Inr (vs ! i))) \<and>
         (jobs = [] \<longrightarrow> run_jobs jobs workers [] = Some (Inr []))"
proof -
  let ?L = "exec sched (gather_start workers (map Worker jobs))"
  have ch: "children ?L = map (\<lambda>j. (Worker j, Done j)) jobs"
    using assms(1,3) by (rule run_to_completion)
  have "surfaced ?L" by (rule surfaced_exec)
  with ch have "outer ?L = Some (Inr (map projr jobs))"
    unfolding surfaced_def using no_failed_done[OF assms(2)] results_done[OF assms(2)] by simp
  with assms(1) have run: "run_jobs jobs workers sched = Some (Inr (map projr jobs))"
    by (simp add: run_jobs_def run_jobs_loop_def Semaphore_def)
  have nth: "jobs ! i = Inr (map projr jobs ! i)" if "i < length jobs" for i
  proof -
    from that have "jobs ! i \<in> set jobs" by simp
    with assms(2) obtain v where "jobs ! i = Inr v" by blast
    with that show ?thesis by simp
  qed
  have empty: "run_jobs [] workers [] = Some (Inr [])"
    using assms(1) by (simp add: run_jobs_def run_jobs_loop_def Semaphore_def gather_start_def)
  from run nth empty show ?thesis by auto
qed

text \<open>
  The scenario of the specification: three jobs, two workers, and a schedule under
  which job 1 finishes first, then job 2, then job 0.
\<close>

theorem run_jobs_results_in_order_witness:
  "(1::int) \<le> 2 \<and>
   2 * length [Inr 10, Inr 11, Inr (12::nat)] \<le> length [0, 0, 1, 0, 1, 0::nat] \<and>
   run_jobs [Inr 10, Inr 11, Inr (12::nat)] 2 [0, 0, 1, 0, 1, 0] = Some (Inr [10, 11, 12])"
proof -
  have h: "\<forall>j \<in> set [Inr 10, Inr 11, Inr (12::nat)]. \<exists>v. j = Inr v" by simp
  from run_jobs_results_in_order
    [of 2 "[Inr 10, Inr 11, Inr (12::nat)]" "[0, 0, 1, 0, 1, 0]", OF _ h]
  obtain vs where r: "run_jobs [Inr 10, Inr 11, Inr (12::nat)] 2 [0, 0, 1, 0, 1, 0] = Some (Inr vs)"
    and l: "length vs = 3"
    and n: "\<forall>i < 3. [Inr 10, Inr 11, Inr (12::nat)] ! i = (Inr (vs ! i) :: exn + nat)"
    by auto
  from l obtain a b c where vs: "vs = [a, b, c]"
    by (auto simp: length_Suc_conv eval_nat_numeral)
  from n have "Inr 10 = (Inr (vs ! 0) :: exn + nat)" "Inr 11 = (Inr (vs ! 1) :: exn + nat)"
    "Inr 12 = (Inr (vs ! 2) :: exn + nat)"
    by (auto dest: spec[of _ 0] spec[of _ 1] spec[of _ 2])
  with vs have "vs = [10, 11, 12]" by simp
  with r show ?thesis by simp
qed

section \<open>run_jobs: the concurrency bound\<close>

text \<open>
  Claim C3. For every list of jobs and every worker count \<open>W \<ge> 1\<close>, after any schedule
  (so at every moment of any execution of \<open>run_jobs\<close>) the number of jobs in their
  running phase is at most \<open>W\<close>. A job runs only after its worker took a permit, and
  the permit is back in the semaphore once the job is done, whether it returned or
  raised: the permits in the semaphore and the running jobs always add up to \<open>W\<close>.
\<close>

theorem run_jobs_concurrency_bound:
  assumes "1 \<le> workers"
  shows "\<exists>L. run_jobs_loop jobs workers sched = Inr L \<and>
             int (running_count L) \<le> workers \<and>
             permits L + int (running_count L) = workers \<and> 0 \<le> permits L"
proof -
  from assms have w: "0 \<le> workers" by simp
  have "accounted jobs workers (exec sched (gather_start workers (map Worker jobs)))"
    using w by (rule accounted_exec)
  then show ?thesis using w
    by (simp add: run_jobs_loop_def Semaphore_def accounted_def)
qed

theorem run_jobs_concurrency_bound_witness:
  "(1::int) \<le> 2 \<and>
   (\<exists>L. run_jobs_loop [Inr (10::nat), Inl (Exn ''RuntimeError'' ''boom''), Inr 30] 2 [0, 0, 1] = Inr L \<and>
        int (running_count L) \<le> 2 \<and> permits L + int (running_count L) = 2 \<and> 0 \<le> permits L)"
  using run_jobs_concurrency_bound
    [of 2 "[Inr (10::nat), Inl (Exn ''RuntimeError'' ''boom''), Inr 30]" "[0, 0, 1]"]
  by simp

section \<open>run_jobs: worker counts below one\<close>

text \<open>
  Claim C4 says that a worker count \<open>W \<le> 0\<close> with a non-empty job list is rejected
  eagerly with a configuration error. \<open>run_jobs\<close> has no check of its own. With
  \<open>W = 0\<close> the semaphore is created, no worker ever gets a permit, and the call has
  not returned after any schedule: here with one job.
\<close>

theorem run_jobs_zero_workers_counterexample:
  "run_jobs [Inr (1::nat)] 0 [0, 0, 0] = None \<and>
   run_jobs_loop [Inr (1::nat)] 0 [0, 0, 0] =
     Inr \<lparr>permits = 0, children = [(Worker (Inr 1), Waiting)], outer = None\<rparr>"
  by (simp add: run_jobs_def run_jobs_loop_def Semaphore_def gather_start_def enabled_def)

text \<open>
  Claim C4, amended. For every negative worker count and every job list, \<open>run_jobs\<close>
  raises the \<open>ValueError\<close> of the semaphore constructor, under every schedule and so
  before any job is started. For the worker count zero and a non-empty job list nothing
  is rejected: under every schedule every worker is still waiting for a permit, no job
  has run, and the call has not returned.
\<close>

theorem run_jobs_nonpositive_workers:
  "(workers < 0 \<longrightarrow> run_jobs jobs workers sched = Some (Inl ValueError_semaphore)) \<and>
   (jobs \<noteq> [] \<longrightarrow>
      run_jobs jobs 0 sched = None \<and>
      run_jobs_loop jobs 0 sched =
        Inr \<lparr>permits = 0, children = map (\<lambda>j. (Worker j, Waiting)) jobs, outer = None\<rparr>)"
proof -
  have neg: "run_jobs jobs workers sched = Some (Inl ValueError_semaphore)" if "workers < 0"
    using that by (simp add: run_jobs_def run_jobs_loop_def Semaphore_def)
  have "exec sched (gather_start 0 (map Worker jobs)) = gather_start 0 (map Worker jobs)"
    using enabled_no_permits by (rule exec_stuck)
  then have loop: "run_jobs_loop jobs 0 sched = Inr (gather_start 0 (map Worker jobs))"
    by (simp add: run_jobs_loop_def Semaphore_def)
  have start: "gather_start 0 (map Worker jobs) =
      \<lparr>permits = 0, children = map (\<lambda>j. (Worker j, Waiting)) jobs, outer = None\<rparr>"
    if "jobs \<noteq> []"
    using that by (simp add: gather_start_def comp_def)
  from neg loop start show ?thesis by (simp add: run_jobs_def)
qed


theorem run_jobs_nonpositive_workers_witness:
  "(-1::int) < 0 \<and>
   run_jobs [Inr (1::nat), Inr 2] (-1) [0, 1] = Some (Inl ValueError_semaphore) \<and>
   [Inr (1::nat), Inr 2 :: nat job] \<noteq> [] \<and>
   run_jobs [Inr (1::nat), Inr 2] 0 [0, 1] = None \<and>
   run_jobs_loop [Inr (1::nat), Inr 2] 0 [0, 1] =
     Inr \<lparr>permits = 0, children = [(Worker (Inr 1), Waiting), (Worker (Inr 2), Waiting)],
          outer = None\<rparr>"
  using run_jobs_nonpositive_workers [of "-1" "[Inr (1::nat), Inr 2]" "[0, 1]"]
  by simp

section \<open>run_jobs: a job that raises\<close>





section \<open>Notifications: a handler that raises\<close>

text \<open>
  Claim C6. A handler that raises does raise in the model, and the exception is
  discarded where the handler is called. For each of the four notifications (event,
  span_enter, span_drop, span_exit) from a dispatcher \<open>d\<close> with chain \<open>ps\<close>, every
  handler of the relevant list at every dispatcher \<open>c\<close> of the chain has been called
  when the notification returns, whichever handlers raise; and what the notification
  returns to the instrumented operation does not depend on the handlers: it is
  \<open>chain_end M ps\<close>, the normal return when the chain ends at a dispatcher that does
  not propagate.
\<close>

theorem handler_exceptions_discarded:
  assumes "notify_chain M d ps" and "c \<in> set ps"
  shows "(raises h cl = Some e \<longrightarrow> fst (invoke h cl s) = Inl e) \<and>
         except_pass (invoke h cl s) = (Inr (), s\<lparr>calls := calls s @ [(hid h, cl)]\<rparr>) \<and>
         (\<exists>s'. event M d ev s = Some (chain_end M ps, s') \<and>
               (\<forall>g \<in> set (event_handlers c). (hid g, Handle ev) \<in> set (calls s'))) \<and>
         (\<exists>s'. span_enter M d id' bound_args instance parent_id s = Some (chain_end M ps, s') \<and>
               (\<forall>g \<in> set (span_handlers c).
                  (hid g, Span_enter id' bound_args instance parent_id) \<in> set (calls s'))) \<and>
         (\<exists>s'. span_drop M d id' bound_args instance err s = Some (chain_end M ps, s') \<and>
               (\<forall>g \<in> set (span_handlers c).
                  (hid g, Span_drop id' bound_args instance err) \<in> set (calls s'))) \<and>
         (\<exists>s'. span_exit M d id' bound_args instance result s = Some (chain_end M ps, s') \<and>
               (\<forall>g \<in> set (span_handlers c).
                  (hid g, Span_exit id' bound_args instance result) \<in> set (calls s'))) \<and>
         (\<not> propagate (last ps) \<longrightarrow> chain_end M ps = Inr ())"
proof -
  have "fst (invoke h cl s) = Inl e" if "raises h cl = Some e"
    using that by (simp add: invoke_def)
  moreover have "(hid g, cl') \<in> set (calls (s\<lparr>calls := calls s @ chain_calls handlers_of cl' ps\<rparr>))"
    if "g \<in> set (handlers_of c)" for g cl' and handlers_of :: "'a dispatcher \<Rightarrow> 'a handler list"
    using assms(2) that by (simp add: chain_calls_mem)
  ultimately show ?thesis
    by (simp add: event_def span_enter_def span_drop_def span_exit_def walk_chain[OF assms(1)]
        chain_end_stop except_pass_invoke)
qed


theorem handler_exceptions_discarded_witness:
  "notify_chain example_managers example_child [example_child, example_root] \<and>
   example_child \<in> set [example_child, example_root] \<and>
   raises example_failing_handler (Span_exit ''f-1'' 5 None 42) =
     Some (Exn ''RuntimeError'' ''handler failed'') \<and>
   (\<exists>s'. span_exit example_managers example_child ''f-1'' 5 None 42 example_ctx = Some (Inr (), s') \<and>
         (2, Span_exit ''f-1'' 5 None 42) \<in> set (calls s'))"
proof -
  have m: "example_child \<in> set [example_child, example_root]" by simp
  from handler_exceptions_discarded [OF example_chain m, of example_failing_handler "Span_exit ''f-1'' 5 None 42"
      _ example_ctx _ "''f-1''" 5 None _ _ 42]
  obtain s' where "span_exit example_managers example_child ''f-1'' 5 None 42 example_ctx =
      Some (chain_end example_managers [example_child, example_root], s')"
    and "\<forall>g \<in> set (span_handlers example_child). (hid g, Span_exit ''f-1'' 5 None 42) \<in> set (calls s')"
    by blast
  then have "span_exit example_managers example_child ''f-1'' 5 None 42 example_ctx = Some (Inr (), s')"
    and "(2, Span_exit ''f-1'' 5 None 42) \<in> set (calls s')"
    by (simp_all add: chain_end_def example_defs)
  with example_chain show ?thesis
    by (auto simp: example_failing_handler_def)
qed


section \<open>Notifications: propagation up the parent chain\<close>

text \<open>
  Claim C7 says that the walk stops after the first dispatcher that does not propagate
  or after the root is processed. The loops have no test for the root. At a root that
  propagates (registered in its manager, no parent registered under its parent name)
  the handlers of the root are called and the notification then raises the \<open>KeyError\<close>
  of the \<open>parent\<close> lookup to its caller; at a dispatcher made with the constructor's
  defaults (no manager, propagation on) it raises the \<open>AttributeError\<close>.
\<close>

theorem notification_walk_counterexample:
  "event example_root_managers example_propagating_root (Event 7) example_ctx =
     Some (Inl (KeyError []),
           \<lparr>active_span_id = Value (Some ''outer-0''), calls = [(8, Handle (Event 7))]\<rparr>) \<and>
   span_enter example_managers example_orphan ''f-1'' 5 None None example_ctx =
     Some (Inl AttributeError_manager,
           \<lparr>active_span_id = Value (Some ''outer-0''),
            calls = [(6, Span_enter ''f-1'' 5 None None)]\<rparr>)"
  unfolding event_def span_enter_def walk_chain[OF example_propagating_root_chain]
    walk_chain[OF example_orphan_chain]
  by (simp add: chain_end_def chain_calls_def parent_def example_defs example_root_managers_def)

text \<open>
  Claim C7, amended. Let \<open>ps\<close> be the chain from a dispatcher \<open>d\<close>: \<open>d\<close>, then its
  parents, up to and including the first dispatcher that does not propagate or, when
  there is none, the first dispatcher whose parent cannot be looked up. Each of the
  four notifications calls exactly the handlers of the relevant list of every
  dispatcher of \<open>ps\<close>, in the order of the chain and, at each dispatcher, in the order
  of registration, and calls nothing else. A dispatcher that does not propagate is its
  own chain. The notification returns normally when the chain ends at a dispatcher
  that does not propagate; when it ends at one that propagates, the notification
  raises the exception of the \<open>parent\<close> lookup after the handlers were called.
\<close>

theorem notification_walk:
  assumes "notify_chain M d ps"
  shows "event M d ev s =
           Some (chain_end M ps, s\<lparr>calls := calls s @ chain_calls event_handlers (Handle ev) ps\<rparr>) \<and>
         span_enter M d id' bound_args instance parent_id s =
           Some (chain_end M ps,
                 s\<lparr>calls := calls s @
                     chain_calls span_handlers (Span_enter id' bound_args instance parent_id) ps\<rparr>) \<and>
         span_drop M d id' bound_args instance err s =
           Some (chain_end M ps,
                 s\<lparr>calls := calls s @
                     chain_calls span_handlers (Span_drop id' bound_args instance err) ps\<rparr>) \<and>
         span_exit M d id' bound_args instance result s =
           Some (chain_end M ps,
                 s\<lparr>calls := calls s @
                     chain_calls span_handlers (Span_exit id' bound_args instance result) ps\<rparr>) \<and>
         (\<not> propagate d \<longrightarrow> ps = [d]) \<and>
         (\<not> propagate (last ps) \<longrightarrow> chain_end M ps = Inr ()) \<and>
         (propagate (last ps) \<longrightarrow> (\<exists>e. parent M (last ps) = Inl e \<and> chain_end M ps = Inl e))"
proof -
  have "ps = [d]" if "\<not> propagate d"
    using assms that by (cases rule: notify_chain.cases) auto
  moreover have "\<exists>e. parent M (last ps) = Inl e \<and> chain_end M ps = Inl e" if "propagate (last ps)"
    using assms that by (rule notify_chain_last)
  ultimately show ?thesis
    by (simp add: event_def span_enter_def span_drop_def span_exit_def walk_chain[OF assms]
        chain_end_stop)
qed

theorem notification_walk_witness:
  "notify_chain example_managers example_child [example_child, example_root] \<and>
   event example_managers example_child (Event 7) example_ctx =
     Some (Inr (),
           \<lparr>active_span_id = Value (Some ''outer-0''),
            calls = [(1, Handle (Event 7)), (2, Handle (Event 7)), (3, Handle (Event 7))]\<rparr>) \<and>
   notify_chain example_root_managers example_propagating_root [example_propagating_root] \<and>
   span_exit example_root_managers example_propagating_root ''f-1'' 5 None 42 example_ctx =
     Some (Inl (KeyError []),
           \<lparr>active_span_id = Value (Some ''outer-0''),
            calls = [(9, Span_exit ''f-1'' 5 None 42)]\<rparr>)"
proof -
  have a: "event example_managers example_child (Event 7) example_ctx =
     Some (Inr (),
           \<lparr>active_span_id = Value (Some ''outer-0''),
            calls = [(1, Handle (Event 7)), (2, Handle (Event 7)), (3, Handle (Event 7))]\<rparr>)"
    using notification_walk [OF example_chain, of "Event 7" example_ctx]
    by (simp add: chain_end_def chain_calls_def example_defs)
  have b: "span_exit example_root_managers example_propagating_root ''f-1'' 5 None 42 example_ctx =
     Some (Inl (KeyError []),
           \<lparr>active_span_id = Value (Some ''outer-0''),
            calls = [(9, Span_exit ''f-1'' 5 None 42)]\<rparr>)"
    using notification_walk [OF example_propagating_root_chain, of _ example_ctx
        "''f-1''" 5 None _ _ 42]
    by (simp add: chain_end_def chain_calls_def parent_def example_defs example_root_managers_def)
  from a b example_chain example_propagating_root_chain show ?thesis by simp
qed

section \<open>span: the active span id\<close>

text \<open>
  Claim C8 says that the active span id is restored on every exit path.
  \<^verbatim>\<open>active_span_id.set\<close> and \<^verbatim>\<open>self.span_enter\<close> stand before the \<^verbatim>\<open>try\<close> block. On
  a dispatcher made with the constructor's defaults \<open>span_enter\<close> raises, the wrapper
  raises that exception without running the operation, and the variable, which held
  the id of the outer span, is left with the new id.
\<close>

theorem span_active_span_id_counterexample:
  "active_span_id example_ctx = Value (Some ''outer-0'') \<and>
   span example_managers example_orphan False ''f'' ''1'' (Inr 5) None
     example_raising_operation example_ctx =
   Some (Inl AttributeError_manager,
         \<lparr>active_span_id = Value (Some ''f-1''),
          calls = [(6, Span_enter ''f-1'' 5 None (Some ''outer-0''))]\<rparr>)"
  unfolding span_def async_wrapper_def wrapper_def span_enter_def set_active_def
    walk_chain[OF example_orphan_chain]
  by (simp add: Let_def chain_end_def chain_calls_def parent_def example_defs)

text \<open>
  Claim C8, amended. A call of an operation wrapped by \<open>span\<close>, by the synchronous or
  the asynchronous wrapper, in a context with state \<open>s\<close>: the new span id is the
  qualified name and the random suffix; \<open>span_enter\<close> is called with the parent id
  that is the active span id of \<open>s\<close>, or \<open>None\<close> when the variable is unset, after the
  variable has been set to the new id. When the span is entered (\<open>span_enter\<close>
  returns, leaving the state \<open>s2\<close>), the operation runs in \<open>s2\<close>, where the active
  span id is the new id, and whether it returns or raises, and whatever it did to the
  variable, the wrapper returns or raises in a state whose active span id is that of
  \<open>s\<close> again, unset included: it returns the operation's value, or raises the
  operation's exception (the exception of \<^verbatim>\<open>str(e)\<close> when that raises). An
  operation that does not return keeps the wrapper from returning. When the arguments
  do not fit the signature the wrapper raises before it touches the variable.
\<close>

theorem span_restores_active_span_id:
  assumes "id' = qualname @ ''-'' @ uuid4"
    and "parent_id = (case active_span_id s of MISSING \<Rightarrow> None | Value old_value \<Rightarrow> old_value)"
    and "span_enter M self id' bound_args instance parent_id
           (s\<lparr>active_span_id := Value (Some id')\<rparr>) = Some (Inr u, s2)"
  shows "active_span_id s2 = Value (Some id') \<and>
         (\<exists>ps. notify_chain M self ps \<and>
               calls s2 = calls s @
                 chain_calls span_handlers (Span_enter id' bound_args instance parent_id) ps) \<and>
         span M self isco qualname uuid4 (Inl e) instance func s = Some (Inl e, s) \<and>
         (func s2 = None \<longrightarrow>
            span M self isco qualname uuid4 (Inr bound_args) instance func s = None) \<and>
         (\<forall>r s3. func s2 = Some (r, s3) \<longrightarrow>
            (\<exists>r' s'. span M self isco qualname uuid4 (Inr bound_args) instance func s = Some (r', s') \<and>
                  active_span_id s' = active_span_id s \<and>
                  r' = (case r of
                          Inr v \<Rightarrow> Inr v
                        | Inl x \<Rightarrow> (case str x of Inr msg \<Rightarrow> Inl x | Inl x' \<Rightarrow> Inl x'))))"
proof -
  from assms(3) obtain ps where ch: "notify_chain M self ps"
    and a: "active_span_id s2 = Value (Some id')"
    and c: "calls s2 = calls s @
        chain_calls span_handlers (Span_enter id' bound_args instance parent_id) ps"
    and w: "wrapper M self qualname uuid4 (Inr bound_args) instance func s =
     finally_reset (active_span_id s)
       (case func s2 of
          None \<Rightarrow> None
        | Some (Inl e, s3) \<Rightarrow>
            (case str e of
               Inl e' \<Rightarrow> Some (Inl e', s3)
             | Inr msg \<Rightarrow>
                 Some (Inl e, s3\<lparr>calls := calls s3 @
                   chain_calls event_handlers (Handle (SpanDropEvent (qualname @ ''-'' @ uuid4) msg)) ps @
                   chain_calls span_handlers (Span_drop (qualname @ ''-'' @ uuid4) bound_args instance (Some e)) ps\<rparr>))
        | Some (Inr result, s3) \<Rightarrow>
            Some (Inr result, s3\<lparr>calls := calls s3 @
                   chain_calls span_handlers (Span_exit (qualname @ ''-'' @ uuid4) bound_args instance result) ps\<rparr>))"
    unfolding assms(1,2) using wrapper_entered[OF assms(3)[unfolded assms(1,2)], of func] by blast
  have b: "span M self isco qualname uuid4 (Inl e) instance func s = Some (Inl e, s)"
    by (simp add: span_def async_wrapper_def wrapper_def)
  have "span M self isco qualname uuid4 (Inr bound_args) instance func s =
        wrapper M self qualname uuid4 (Inr bound_args) instance func s"
    by (simp add: span_def async_wrapper_def)
  with w a b c ch show ?thesis
    by (auto simp: reset_def split: sum.splits)
qed

theorem span_restores_active_span_id_witness:
  "span_enter example_managers example_child ''f-1'' 5 None (Some ''outer-0'')
     (example_ctx\<lparr>active_span_id := Value (Some ''f-1'')\<rparr>) =
   Some (Inr (),
         \<lparr>active_span_id = Value (Some ''f-1''),
          calls = [(1, Span_enter ''f-1'' 5 None (Some ''outer-0'')),
                   (2, Span_enter ''f-1'' 5 None (Some ''outer-0'')),
                   (4, Span_enter ''f-1'' 5 None (Some ''outer-0''))]\<rparr>) \<and>
   (\<exists>s'. span example_managers example_child True ''f'' ''1'' (Inr 5) None
           example_raising_operation example_ctx =
           Some (Inl (Exn ''ValueError'' ''bad input''), s') \<and>
         active_span_id s' = Value (Some ''outer-0''))"
proof -
  have i: "''f-1'' = ''f'' @ ''-'' @ ''1''" by simp
  have p: "Some ''outer-0'' =
      (case active_span_id example_ctx of MISSING \<Rightarrow> None | Value old_value \<Rightarrow> old_value)"
    by (simp add: example_ctx_def)
  from span_restores_active_span_id [OF i p example_entered, of True _ example_raising_operation]
  show ?thesis
    using example_entered by (simp add: example_raising_operation_def example_ctx_def)
qed

section \<open>span: exit and drop\<close>

text \<open>
  Claim C9 says that every call has exactly one terminal transition, and that an
  operation that raises gives the span-drop event, then \<open>span_drop\<close>, then the original
  exception. On a dispatcher made with the constructor's defaults the span handler
  gets \<open>span_enter\<close>, then \<open>span_enter\<close> raises and the call ends with neither
  \<open>span_exit\<close> nor \<open>span_drop\<close>. On the example tree, an operation that raises an
  exception whose \<^verbatim>\<open>__str__\<close> raises: \<^verbatim>\<open>str(e)\<close> is evaluated first, no event and
  no \<open>span_drop\<close> is sent, and the exception of \<^verbatim>\<open>str(e)\<close> is raised instead of the
  original one.
\<close>

theorem span_terminal_transition_counterexample:
  "span example_managers example_orphan True ''f'' ''1'' (Inr 5) None
     example_bad_str_operation example_ctx =
   Some (Inl AttributeError_manager,
         \<lparr>active_span_id = Value (Some ''f-1''),
          calls = [(6, Span_enter ''f-1'' 5 None (Some ''outer-0''))]\<rparr>) \<and>
   span example_managers example_child False ''f'' ''1'' (Inr 5) None
     example_bad_str_operation example_ctx =
   Some (Inl (Exn ''TypeError'' ''__str__ returned non-string (type int)''),
         \<lparr>active_span_id = Value (Some ''outer-0''),
          calls = [(1, Span_enter ''f-1'' 5 None (Some ''outer-0'')),
                   (2, Span_enter ''f-1'' 5 None (Some ''outer-0'')),
                   (4, Span_enter ''f-1'' 5 None (Some ''outer-0''))]\<rparr>)"
proof -
  have a: "span example_managers example_orphan True ''f'' ''1'' (Inr 5) None
     example_bad_str_operation example_ctx =
   Some (Inl AttributeError_manager,
         \<lparr>active_span_id = Value (Some ''f-1''),
          calls = [(6, Span_enter ''f-1'' 5 None (Some ''outer-0''))]\<rparr>)"
    unfolding span_def async_wrapper_def wrapper_def span_enter_def set_active_def
      walk_chain[OF example_orphan_chain]
    by (simp add: Let_def chain_end_def chain_calls_def parent_def example_defs)
  have b: "span example_managers example_child False ''f'' ''1'' (Inr 5) None
     example_bad_str_operation example_ctx =
   Some (Inl (Exn ''TypeError'' ''__str__ returned non-string (type int)''),
         \<lparr>active_span_id = Value (Some ''outer-0''),
          calls = [(1, Span_enter ''f-1'' 5 None (Some ''outer-0'')),
                   (2, Span_enter ''f-1'' 5 None (Some ''outer-0'')),
                   (4, Span_enter ''f-1'' 5 None (Some ''outer-0''))]\<rparr>)"
    unfolding span_def async_wrapper_def wrapper_def span_enter_def set_active_def
      walk_chain[OF example_chain]
    by (simp add: Let_def chain_end_def chain_calls_def reset_def example_defs)
  from a b show ?thesis by simp
qed

text \<open>
  Claim C9, amended. Once the span is entered, the wrapper makes one of two sequences
  of calls after the operation, never both. If the operation returns a value, every
  span handler of the chain gets \<open>span_exit\<close> with that value, nothing else is called,
  and the value is returned. If the operation raises an exception of which
  \<^verbatim>\<open>str(e)\<close> returns the text, first every event handler of the chain gets the
  \<open>SpanDropEvent\<close> with the span id and that text, then every span handler of the
  chain gets \<open>span_drop\<close> with the exception, nothing else is called, and the same
  exception is raised again.
\<close>

theorem span_terminal_transition:
  assumes "id' = qualname @ ''-'' @ uuid4"
    and "parent_id = (case active_span_id s of MISSING \<Rightarrow> None | Value old_value \<Rightarrow> old_value)"
    and "span_enter M self id' bound_args instance parent_id
           (s\<lparr>active_span_id := Value (Some id')\<rparr>) = Some (Inr u, s2)"
  shows "\<exists>ps. notify_chain M self ps \<and>
          (\<forall>result s3. func s2 = Some (Inr result, s3) \<longrightarrow>
             span M self isco qualname uuid4 (Inr bound_args) instance func s =
               Some (Inr result,
                     s3\<lparr>active_span_id := active_span_id s,
                        calls := calls s3 @
                          chain_calls span_handlers (Span_exit id' bound_args instance result) ps\<rparr>)) \<and>
          (\<forall>e msg s3. func s2 = Some (Inl e, s3) \<and> str e = Inr msg \<longrightarrow>
             span M self isco qualname uuid4 (Inr bound_args) instance func s =
               Some (Inl e,
                     s3\<lparr>active_span_id := active_span_id s,
                        calls := calls s3 @
                          chain_calls event_handlers (Handle (SpanDropEvent id' msg)) ps @
                          chain_calls span_handlers (Span_drop id' bound_args instance (Some e)) ps\<rparr>))"
proof -
  from assms(3) obtain ps where ch: "notify_chain M self ps"
    and w: "wrapper M self qualname uuid4 (Inr bound_args) instance func s =
     finally_reset (active_span_id s)
       (case func s2 of
          None \<Rightarrow> None
        | Some (Inl e, s3) \<Rightarrow>
            (case str e of
               Inl e' \<Rightarrow> Some (Inl e', s3)
             | Inr msg \<Rightarrow>
                 Some (Inl e, s3\<lparr>calls := calls s3 @
                   chain_calls event_handlers (Handle (SpanDropEvent (qualname @ ''-'' @ uuid4) msg)) ps @
                   chain_calls span_handlers (Span_drop (qualname @ ''-'' @ uuid4) bound_args instance (Some e)) ps\<rparr>))
        | Some (Inr result, s3) \<Rightarrow>
            Some (Inr result, s3\<lparr>calls := calls s3 @
                   chain_calls span_handlers (Span_exit (qualname @ ''-'' @ uuid4) bound_args instance result) ps\<rparr>))"
    using wrapper_entered[OF assms(3)[unfolded assms(1,2)], of func] by blast
  have "span M self isco qualname uuid4 (Inr bound_args) instance func s =
        wrapper M self qualname uuid4 (Inr bound_args) instance func s"
    by (simp add: span_def async_wrapper_def)
  with w ch show ?thesis
    by (auto simp: assms(1) reset_def)
qed

theorem span_terminal_transition_witness:
  "span_enter example_managers example_child ''f-1'' 5 None (Some ''outer-0'')
     (example_ctx\<lparr>active_span_id := Value (Some ''f-1'')\<rparr>) =
   Some (Inr (),
         \<lparr>active_span_id = Value (Some ''f-1''),
          calls = [(1, Span_enter ''f-1'' 5 None (Some ''outer-0'')),
                   (2, Span_enter ''f-1'' 5 None (Some ''outer-0'')),
                   (4, Span_enter ''f-1'' 5 None (Some ''outer-0''))]\<rparr>) \<and>
   str (Exn ''ValueError'' ''bad input'') = Inr ''bad input'' \<and>
   span example_managers example_child False ''f'' ''1'' (Inr 5) None
     example_raising_operation example_ctx =
   Some (Inl (Exn ''ValueError'' ''bad input''),
         \<lparr>active_span_id = Value (Some ''outer-0''),
          calls = [(1, Span_enter ''f-1'' 5 None (Some ''outer-0'')),
                   (2, Span_enter ''f-1'' 5 None (Some ''outer-0'')),
                   (4, Span_enter ''f-1'' 5 None (Some ''outer-0'')),
                   (1, Handle (SpanDropEvent ''f-1'' ''bad input'')),
                   (2, Handle (SpanDropEvent ''f-1'' ''bad input'')),
                   (3, Handle (SpanDropEvent ''f-1'' ''bad input'')),
                   (1, Span_drop ''f-1'' 5 None (Some (Exn ''ValueError'' ''bad input''))),
                   (2, Span_drop ''f-1'' 5 None (Some (Exn ''ValueError'' ''bad input''))),
                   (4, Span_drop ''f-1'' 5 None (Some (Exn ''ValueError'' ''bad input'')))]\<rparr>)"
proof -
  have i: "''f-1'' = ''f'' @ ''-'' @ ''1''" by simp
  have p: "Some ''outer-0'' =
      (case active_span_id example_ctx of MISSING \<Rightarrow> None | Value old_value \<Rightarrow> old_value)"
    by (simp add: example_ctx_def)
  from span_terminal_transition [OF i p example_entered, of example_raising_operation False]
  obtain ps where ch: "notify_chain example_managers example_child ps"
    and r: "\<forall>e msg s3. example_raising_operation
             \<lparr>active_span_id = Value (Some ''f-1''),
              calls = [(1, Span_enter ''f-1'' 5 None (Some ''outer-0'')),
                       (2, Span_enter ''f-1'' 5 None (Some ''outer-0'')),
                       (4, Span_enter ''f-1'' 5 None (Some ''outer-0''))]\<rparr> = Some (Inl e, s3) \<and>
             str e = Inr msg \<longrightarrow>
           span example_managers example_child False ''f'' ''1'' (Inr 5) None
             example_raising_operation example_ctx =
           Some (Inl e,
                 s3\<lparr>active_span_id := active_span_id example_ctx,
                    calls := calls s3 @
                      chain_calls event_handlers (Handle (SpanDropEvent ''f-1'' msg)) ps @
                      chain_calls span_handlers (Span_drop ''f-1'' 5 None (Some e)) ps\<rparr>)"
    by blast
  from ch example_chain have ps: "ps = [example_child, example_root]"
    by (rule notify_chain_unique)
  from r show ?thesis
    using example_entered
    by (simp add: ps example_raising_operation_def chain_calls_def example_defs)
qed

section \<open>batch_gather: a batch size below one\<close>

text \<open>
  Claim C10 says that every batch size \<open>\<le> 0\<close> gives the empty result. A batch size
  below the index range of the interpreter, here \<open>- 2 ^ 63 - 1\<close>, makes the list
  repetition in \<open>chunks\<close> raise \<open>OverflowError\<close>, and \<open>batch_gather\<close> raises it.
\<close>

theorem batch_gather_nonpositive_batch_size_counterexample:
  "batch_gather [Inr (1::nat)] (- 9223372036854775809) example_schedule =
     (Some (Inl OverflowError_index), [])"
  by (simp add: batch_gather_def chunks_def PY_SSIZE_T_MAX_def)

text \<open>
  Claim C10, amended. With a batch size from \<open>- 2 ^ 63\<close> to \<open>0\<close>, \<open>chunks\<close> yields no
  chunk at all, so \<open>batch_gather\<close> returns the empty list and hands nothing to
  \<open>gather\<close>: none of the submitted jobs is run or awaited, whatever the job list is.
  With a batch size below \<open>- 2 ^ 63\<close>, \<open>batch_gather\<close> raises the \<open>OverflowError\<close> of
  \<open>chunks\<close>, and again nothing is handed to \<open>gather\<close>.
\<close>

theorem batch_gather_nonpositive_batch_size:
  "(- (2 ^ 63) \<le> batch_size \<and> batch_size \<le> 0 \<longrightarrow>
      chunks tasks batch_size = Inr [] \<and>
      batch_gather tasks batch_size sched = (Some (Inr []), [])) \<and>
   (batch_size < - (2 ^ 63) \<longrightarrow>
      batch_gather tasks batch_size sched = (Some (Inl OverflowError_index), []))"
  by (simp add: chunks_def batch_gather_def PY_SSIZE_T_MAX_def zip_longest_shared.simps)

theorem batch_gather_nonpositive_batch_size_witness:
  "- (2 ^ 63) \<le> (-2::int) \<and> (-2::int) \<le> 0 \<and>
   chunks [Inr (1::nat), Inl (Exn ''RuntimeError'' ''boom''), Inr 3] (-2) = Inr [] \<and>
   batch_gather [Inr (1::nat), Inl (Exn ''RuntimeError'' ''boom''), Inr 3] (-2) example_schedule =
     (Some (Inr []), []) \<and>
   batch_gather [Inr (1::nat), Inl (Exn ''RuntimeError'' ''boom''), Inr 3]
     (- 9223372036854775808) example_schedule = (Some (Inr []), []) \<and>
   (- 9223372036854775810 :: int) < - (2 ^ 63) \<and>
   batch_gather [Inr (1::nat), Inl (Exn ''RuntimeError'' ''boom''), Inr 3]
     (- 9223372036854775810) example_schedule = (Some (Inl OverflowError_index), [])"
  using batch_gather_nonpositive_batch_size
    [of "-2" "[Inr (1::nat), Inl (Exn ''RuntimeError'' ''boom''), Inr 3]" example_schedule]
    batch_gather_nonpositive_batch_size
    [of "- 9223372036854775808" "[Inr (1::nat), Inl (Exn ''RuntimeError'' ''boom''), Inr 3]"
      example_schedule]
    batch_gather_nonpositive_batch_size
    [of "- 9223372036854775810" "[Inr (1::nat), Inl (Exn ''RuntimeError'' ''boom''), Inr 3]"
      example_schedule]
  by simp

end
